theory Spec2Isabelle
  imports Main "HOL-Library.Word"
begin

unbundle bit_operations_syntax

section \<open>Data model of \<open>lib/coins/coins.js\<close>\<close>

text \<open>
  A buffer is a list of bytes. Transaction hashes are hex strings. Indices, sizes, the
  transaction version and monetary values are natural numbers; the height is an integer
  (\<open>-1\<close> when unconfirmed).
\<close>

type_synonym byte = "8 word"
type_synonym bytes = "byte list"

text \<open>
  Every \<open>assert\<close> of the source is an \<open>AssertionError\<close> carrying the assertion's message
  (empty when the source gives none); reading a property of \<open>null\<close> is a \<open>TypeError\<close>;
  every failure of a reader or of the decompressor is a \<open>DecodeError\<close>.
\<close>

datatype error = AssertionError string | TypeError | DecodeError

text \<open>The consumed \<open>Output\<close>, \<open>Coin\<close> and \<open>TX\<close> primitives, reduced to the fields this file uses.\<close>

record Output =
  out_value :: nat
  out_script :: bytes

record Coin =
  coin_version :: nat
  coin_coinbase :: bool
  coin_height :: int
  coin_hash :: string
  coin_index :: nat
  coin_script :: bytes
  coin_value :: nat

record TX =
  tx_version :: nat
  tx_hash :: string
  tx_isCoinbase :: bool
  tx_outputs :: "Output list"

text \<open>
  \<open>CoinEntry\<close> (lines 624-630): a deferred coin, either materialised (\<open>output_e\<close>) or a
  pointer \<open>raw[offset .. offset + size]\<close> into a serialized record. The fields \<open>size\<close> and
  \<open>output\<close> of the source carry the suffix \<open>_e\<close> here.
\<close>

record CoinEntry =
  offset :: nat
  size_e :: nat
  raw :: "bytes option"
  output_e :: "Output option"
  spent :: bool

text \<open>
  \<open>Coins\<close> (lines 33-45). A slot of \<open>outputs\<close> is \<open>None\<close> where the source holds \<open>null\<close>.
  Each slot owns its entry: the entries of a record are created by \<open>fromOutput\<close>,
  \<open>fromCoin\<close> and \<open>fromReader\<close>, one per slot, so a record is a list of entry values.
\<close>

record Coins =
  version :: nat
  hash :: string
  height :: int
  coinbase :: bool
  outputs :: "CoinEntry option list"

definition NULL_HASH :: string where
  "NULL_HASH = replicate 64 (CHR ''0'')"

definition new_Coins :: Coins where
  "new_Coins = \<lparr>version = 1, hash = NULL_HASH, height = -1, coinbase = True, outputs = []\<rparr>"

definition new_CoinEntry :: CoinEntry where
  "new_CoinEntry = \<lparr>offset = 0, size_e = 0, raw = None, output_e = None, spent = False\<rparr>"

section \<open>The container\<close>

text \<open>
  \<open>add\<close> (lines 99-108). The index is a natural number, so \<open>assert(index >= 0)\<close> holds.
  The loop pushes \<open>null\<close> until the slot exists.
\<close>

function add_pad :: "CoinEntry option list \<Rightarrow> nat \<Rightarrow> CoinEntry option list" where
  "add_pad os index = (if length os \<le> index then add_pad (os @ [None]) index else os)"
  by pat_completeness auto
termination
  by (relation "measure (\<lambda>(os, index). Suc index - length os)") auto

definition add :: "Coins \<Rightarrow> nat \<Rightarrow> CoinEntry \<Rightarrow> error + Coins" where
  "add c index entry =
     (let os = add_pad (outputs c) index
      in if os ! index \<noteq> None then Inl (AssertionError [])
         else Inr (c\<lparr>outputs := os[index := Some entry]\<rparr>))"

text \<open>The three constructors of \<open>CoinEntry\<close> that do not read a buffer (lines 739-758).\<close>

definition fromOutput :: "Output \<Rightarrow> CoinEntry" where
  "fromOutput out = new_CoinEntry\<lparr>output_e := Some out\<rparr>"

definition fromCoin :: "Coin \<Rightarrow> CoinEntry" where
  "fromCoin coin =
     new_CoinEntry\<lparr>output_e := Some \<lparr>out_value = coin_value coin, out_script = coin_script coin\<rparr>\<rparr>"

text \<open>
  \<open>addOutput\<close> and \<open>addCoin\<close> (lines 116-129). \<open>Script.isUnspendable\<close> is not among the
  sources; it is the parameter \<open>isUnspendable\<close>, a test on the script's bytes.
\<close>

definition addOutput :: "(bytes \<Rightarrow> bool) \<Rightarrow> Coins \<Rightarrow> nat \<Rightarrow> Output \<Rightarrow> error + Coins" where
  "addOutput isUnspendable c index out =
     (if isUnspendable (out_script out) then Inl (AssertionError [])
      else add c index (fromOutput out))"

definition addCoin :: "(bytes \<Rightarrow> bool) \<Rightarrow> Coins \<Rightarrow> Coin \<Rightarrow> error + Coins" where
  "addCoin isUnspendable c coin =
     (if isUnspendable (coin_script coin) then Inl (AssertionError [])
      else add c (coin_index coin) (fromCoin coin))"

text \<open>\<open>has\<close>, \<open>isUnspent\<close>, \<open>get\<close> (lines 137-176). \<open>undefined\<close> and \<open>null\<close> are both \<open>None\<close>.\<close>

definition has :: "Coins \<Rightarrow> nat \<Rightarrow> bool" where
  "has c index = (if index \<ge> length (outputs c) then False else outputs c ! index \<noteq> None)"

definition isUnspent :: "Coins \<Rightarrow> nat \<Rightarrow> bool" where
  "isUnspent c index =
     (if index \<ge> length (outputs c) then False
      else case outputs c ! index of None \<Rightarrow> False | Some out \<Rightarrow> \<not> spent out)"

definition get :: "Coins \<Rightarrow> nat \<Rightarrow> CoinEntry option" where
  "get c index = (if index \<ge> length (outputs c) then None else outputs c ! index)"

text \<open>
  \<open>spend\<close> (lines 214-223) returns the entry it has marked, or nothing; the second
  component is the record afterwards.
\<close>

definition spend :: "Coins \<Rightarrow> nat \<Rightarrow> CoinEntry option \<times> Coins" where
  "spend c index =
     (case get c index of
        None \<Rightarrow> (None, c)
      | Some entry \<Rightarrow>
          if spent entry then (None, c)
          else (Some (entry\<lparr>spent := True\<rparr>),
                c\<lparr>outputs := (outputs c)[index := Some (entry\<lparr>spent := True\<rparr>)]\<rparr>))"

text \<open>
  \<open>length\<close> (lines 248-255) and \<open>cleanup\<close> (lines 261-268): both loops count \<open>len\<close> down
  from \<open>outputs.length\<close>; the equation for \<open>Suc n\<close> is one test of the loop condition at
  \<open>len = n + 1\<close>.
\<close>

fun length_loop :: "Coins \<Rightarrow> nat \<Rightarrow> nat" where
  "length_loop c 0 = 0"
| "length_loop c (Suc n) = (if \<not> isUnspent c n then length_loop c n else Suc n)"

definition length_c :: "Coins \<Rightarrow> nat" where
  "length_c c = length_loop c (length (outputs c))"

fun cleanup_loop :: "CoinEntry option list \<Rightarrow> nat \<Rightarrow> nat" where
  "cleanup_loop os 0 = 0"
| "cleanup_loop os (Suc n) = (if os ! n = None then cleanup_loop os n else Suc n)"

definition cleanup :: "Coins \<Rightarrow> Coins" where
  "cleanup c = c\<lparr>outputs := take (cleanup_loop (outputs c) (length (outputs c))) (outputs c)\<rparr>"

definition isEmpty :: "Coins \<Rightarrow> bool" where
  "isEmpty c = (length_c c = 0)"

text \<open>\<open>remove\<close> (lines 231-241): \<open>false\<close> is \<open>None\<close>.\<close>

definition remove :: "Coins \<Rightarrow> nat \<Rightarrow> CoinEntry option \<times> Coins" where
  "remove c index =
     (case get c index of
        None \<Rightarrow> (None, c)
      | Some entry \<Rightarrow> (Some entry, cleanup (c\<lparr>outputs := (outputs c)[index := None]\<rparr>)))"

text \<open>
  \<open>fromTX\<close> (lines 566-590) pushes one slot per output of the transaction onto the
  record's own \<open>outputs\<close>, then cleans up; \<open>Coins.fromTX\<close> (line 599) starts from a new
  record.
\<close>

fun fromTX_loop :: "(bytes \<Rightarrow> bool) \<Rightarrow> Output list \<Rightarrow> CoinEntry option list \<Rightarrow> CoinEntry option list" where
  "fromTX_loop isUnspendable [] os = os"
| "fromTX_loop isUnspendable (out # rest) os =
     (if isUnspendable (out_script out) then fromTX_loop isUnspendable rest (os @ [None])
      else fromTX_loop isUnspendable rest (os @ [Some (fromOutput out)]))"

definition fromTX :: "(bytes \<Rightarrow> bool) \<Rightarrow> Coins \<Rightarrow> TX \<Rightarrow> int \<Rightarrow> Coins" where
  "fromTX isUnspendable c tx h =
     cleanup (c\<lparr>version := tx_version tx, hash := tx_hash tx, height := h,
               coinbase := tx_isCoinbase tx,
               outputs := fromTX_loop isUnspendable (tx_outputs tx) (outputs c)\<rparr>)"

definition Coins_fromTX :: "(bytes \<Rightarrow> bool) \<Rightarrow> TX \<Rightarrow> int \<Rightarrow> Coins" where
  "Coins_fromTX isUnspendable tx h = fromTX isUnspendable new_Coins tx h"

section \<open>The header code\<close>

text \<open>
  \<open>header\<close> (lines 316-345); \<open>sz\<close> is the source's \<open>size\<close>. The first assertion carries the
  source's message. The subtraction \<open>size - offset\<close> is taken after \<open>assert(size !== 0)\<close>,
  so it never goes below zero.
\<close>

definition header :: "Coins \<Rightarrow> nat \<Rightarrow> nat \<Rightarrow> error + nat" where
  "header c len sz =
     (let first = isUnspent c 0; second = isUnspent c 1
      in if len = 0 then Inl (AssertionError ''Cannot serialize fully-spent coins.'')
         else if \<not> first \<and> \<not> second \<and> sz = 0 then Inl (AssertionError [])
         else
           let offs = (if \<not> first \<and> \<not> second then 1 else 0 :: nat);
               code = 8 * (sz - offs);
               code = (if coinbase c then code + 1 else code);
               code = (if first then code + 2 else code);
               code = (if second then code + 4 else code)
           in Inr code)"

text \<open>
  ``Recalculate size'' (lines 441-445 of \<open>fromRaw\<close>, 501-505 of \<open>parseCoin\<close>).
  \<open>code / 8 | 0\<close> is the truncating division; \<open>code & 6\<close> reads bits 1 and 2. Both
  are taken on natural numbers. The operators of the source work on 32 bits: \<open>code & 6\<close>
  sees the low bits of any code, and \<open>code / 8 | 0\<close> is the quotient for every code below
  \<open>2 ^ 34\<close>; a larger code announces a spent field of \<open>2 ^ 31\<close> bytes or more.
\<close>

definition recalc_size :: "nat \<Rightarrow> nat" where
  "recalc_size code = (let sz = code div 8 in if code AND 6 = 0 then sz + 1 else sz)"

section \<open>Readers, writers and the compressor\<close>

text \<open>
  Modelled from the spec: the reader, the writer and the varint encoding
  (\<open>utils/reader.js\<close>, \<open>utils/staticwriter.js\<close>, \<open>utils/encoding.js\<close>) are not among the
  sources. Section 6 of the specification fixes them: a reader is a cursor into a buffer,
  a truncated buffer is a decode error, \<open>u32-le\<close> is four bytes, least significant
  first, and a varint is read by the loop
  \<open>n = (n << 7) | (byte & 0x7F); if (byte & 0x80) n++; else break\<close>.
  Each read below takes the buffer and the cursor and returns the value with the cursor
  after it. A writer is the list of the bytes written.
\<close>

fun read_varint_loop :: "bytes \<Rightarrow> nat \<Rightarrow> (nat \<times> nat) option" where
  "read_varint_loop [] n = None"
| "read_varint_loop (ch # rest) n =
     (let n = push_bit 7 n OR unat (ch AND 0x7F)
      in if ch AND 0x80 \<noteq> 0
         then map_option (\<lambda>(v, k). (v, Suc k)) (read_varint_loop rest (n + 1))
         else Some (n, 1))"

definition readVarint :: "bytes \<Rightarrow> nat \<Rightarrow> error + (nat \<times> nat)" where
  "readVarint data pos =
     (case read_varint_loop (drop pos data) 0 of
        None \<Rightarrow> Inl DecodeError
      | Some (v, k) \<Rightarrow> Inr (v, pos + k))"

text \<open>
  Modelled from the spec: \<open>writeVarint\<close> of the missing writer and \<open>sizeVarint\<close> of the
  missing \<open>utils/encoding.js\<close>. The writer of the encoding of section 6 emits the groups
  of seven bits from the last byte to the first; every byte but the last carries the
  continuation bit and stands for one more than its seven bits. \<open>sizeVarint\<close> is the number
  of bytes written.
\<close>

function write_varint_loop :: "nat \<Rightarrow> bool \<Rightarrow> bytes \<Rightarrow> bytes" where
  "write_varint_loop n cont acc =
     (let acc = (word_of_nat (n AND 0x7F) OR (if cont then 0x80 else 0)) # acc
      in if n \<le> 0x7F then acc else write_varint_loop (drop_bit 7 n - 1) True acc)"
  by pat_completeness auto
termination
  by (relation "measure (\<lambda>(n, cont, acc). n)") (auto simp: drop_bit_eq_div)

definition writeVarint :: "nat \<Rightarrow> bytes" where
  "writeVarint n = write_varint_loop n False []"

definition sizeVarint :: "nat \<Rightarrow> nat" where
  "sizeVarint n = length (writeVarint n)"

text \<open>
  Modelled from the spec: \<open>writeU32\<close> and \<open>readU32\<close> of the missing writer and reader, the
  \<open>u32-le\<close> of section 6, four bytes, least significant first. \<open>writeU32\<close> stores the low
  32 bits of its argument, as a write of four bytes must; \<open>readU32\<close> returns an unsigned
  number.
\<close>

definition writeU32 :: "int \<Rightarrow> bytes" where
  "writeU32 v =
     [word_of_int v, word_of_int (drop_bit 8 v), word_of_int (drop_bit 16 v),
      word_of_int (drop_bit 24 v)]"

definition readU32 :: "bytes \<Rightarrow> nat \<Rightarrow> error + (nat \<times> nat)" where
  "readU32 data pos =
     (case drop pos data of
        b0 # b1 # b2 # b3 # rest \<Rightarrow>
          Inr (unat b0 + push_bit 8 (unat b1) + push_bit 16 (unat b2) + push_bit 24 (unat b3),
               pos + 4)
      | _ \<Rightarrow> Inl DecodeError)"

text \<open>
  Modelled from the spec: \<open>seek\<close> of the missing reader moves the cursor forward; a move
  past the end of the buffer is a truncated buffer, a decode error (section 7).
\<close>

definition seek :: "bytes \<Rightarrow> nat \<Rightarrow> nat \<Rightarrow> error + nat" where
  "seek data pos n = (if pos + n \<le> length data then Inr (pos + n) else Inl DecodeError)"

text \<open>
  \<open>br.data[offset]\<close> (lines 463 and 531). Out of range the source reads \<open>undefined\<close>, and
  \<open>undefined & m\<close> is \<open>0\<close> for every mask, as for the byte \<open>0\<close>.
\<close>

definition byte_at :: "bytes \<Rightarrow> nat \<Rightarrow> byte" where
  "byte_at data pos = (if pos < length data then data ! pos else 0)"

text \<open>
  Modelled from the spec: \<open>copy\<close> of the missing writer; \<open>bw.copy(raw, start, end)\<close> appends
  the bytes \<open>raw[start .. end]\<close> (the byte-copy of section 4.2).
\<close>

definition slice :: "bytes \<Rightarrow> nat \<Rightarrow> nat \<Rightarrow> bytes" where
  "slice buf start end_pos = take (end_pos - start) (drop start buf)"

text \<open>
  Modelled from the spec: the compressor (\<open>coins/compress.js\<close>) is not among the sources.
  It is a parameter, given by the four operations of section 4.1 of the specification:
  \<open>compress.output\<close> as the bytes it writes, \<open>compress.size\<close>, and \<open>decompress.output\<close> and
  \<open>decompress.skip\<close> as functions of the bytes from the reader's cursor on (\<open>None\<close> is a
  decode error; \<open>decompress.skip\<close> returns the number of bytes it passes).
  \<open>decompress.coin\<close> reads what \<open>decompress.output\<close> reads, into a coin (section 4.3.4).
\<close>

record compressor =
  compress_output :: "Output \<Rightarrow> bytes"
  compress_size :: "Output \<Rightarrow> nat"
  decompress_output :: "bytes \<Rightarrow> Output option"
  decompress_skip :: "bytes \<Rightarrow> nat option"

definition skip_at :: "compressor \<Rightarrow> bytes \<Rightarrow> nat \<Rightarrow> error + nat" where
  "skip_at K data pos =
     (case decompress_skip K (drop pos data) of None \<Rightarrow> Inl DecodeError | Some n \<Rightarrow> Inr n)"

definition output_at :: "compressor \<Rightarrow> bytes \<Rightarrow> nat \<Rightarrow> error + Output" where
  "output_at K data pos =
     (case decompress_output K (drop pos data) of None \<Rightarrow> Inl DecodeError | Some out \<Rightarrow> Inr out)"

section \<open>Coin entries\<close>

text \<open>\<open>reader\<close> (lines 638-647): the buffer and the cursor of the new reader.\<close>

definition reader :: "CoinEntry \<Rightarrow> error + (bytes \<times> nat)" where
  "reader entry =
     (case raw entry of None \<Rightarrow> Inl (AssertionError []) | Some buf \<Rightarrow> Inr (buf, offset entry))"

text \<open>\<open>toOutput\<close> (lines 678-684) caches the output in the entry, which is returned with it.\<close>

definition toOutput :: "compressor \<Rightarrow> CoinEntry \<Rightarrow> error + (Output \<times> CoinEntry)" where
  "toOutput K entry =
     (case output_e entry of
        Some out \<Rightarrow> Inr (out, entry)
      | None \<Rightarrow>
          (case reader entry of
             Inl e \<Rightarrow> Inl e
           | Inr (buf, pos) \<Rightarrow>
               (case output_at K buf pos of
                  Inl e \<Rightarrow> Inl e
                | Inr out \<Rightarrow> Inr (out, entry\<lparr>output_e := Some out\<rparr>))))"

text \<open>\<open>toCoin\<close> (lines 656-671).\<close>

definition toCoin :: "compressor \<Rightarrow> CoinEntry \<Rightarrow> Coins \<Rightarrow> nat \<Rightarrow> error + (Coin \<times> CoinEntry)" where
  "toCoin K entry coins index =
     (case toOutput K entry of
        Inl e \<Rightarrow> Inl e
      | Inr (out, entry') \<Rightarrow>
          Inr (\<lparr>coin_version = version coins, coin_coinbase = coinbase coins,
                coin_height = height coins, coin_hash = hash coins, coin_index = index,
                coin_script = out_script out, coin_value = out_value out\<rparr>, entry'))"

text \<open>\<open>CoinEntry.getSize\<close> (lines 691-696) and \<open>toWriter\<close> (lines 703-717).\<close>

definition getSize_e :: "compressor \<Rightarrow> CoinEntry \<Rightarrow> error + nat" where
  "getSize_e K entry =
     (case raw entry of
        None \<Rightarrow> (case output_e entry of None \<Rightarrow> Inl TypeError | Some out \<Rightarrow> Inr (compress_size K out))
      | Some buf \<Rightarrow> Inr (size_e entry))"

definition toWriter :: "compressor \<Rightarrow> CoinEntry \<Rightarrow> error + bytes" where
  "toWriter K entry =
     (case raw entry of
        None \<Rightarrow>
          (case output_e entry of
             None \<Rightarrow> Inl (AssertionError [])
           | Some out \<Rightarrow> Inr (compress_output K out))
      | Some buf \<Rightarrow> Inr (slice buf (offset entry) (offset entry + size_e entry)))"

text \<open>\<open>fromReader\<close> (lines 725-731) returns the entry and the cursor after it.\<close>

definition fromReader :: "compressor \<Rightarrow> bytes \<Rightarrow> nat \<Rightarrow> error + (CoinEntry \<times> nat)" where
  "fromReader K data pos =
     (case skip_at K data pos of
        Inl e \<Rightarrow> Inl e
      | Inr n \<Rightarrow> Inr (new_CoinEntry\<lparr>offset := pos, size_e := n, raw := Some data\<rparr>, pos + n))"

text \<open>
  \<open>getOutput\<close> and \<open>getCoin\<close> (lines 184-206); the record is returned with the entry's
  cache filled.
\<close>

definition getOutput :: "compressor \<Rightarrow> Coins \<Rightarrow> nat \<Rightarrow> error + (Output option \<times> Coins)" where
  "getOutput K c index =
     (case get c index of
        None \<Rightarrow> Inr (None, c)
      | Some entry \<Rightarrow>
          (case toOutput K entry of
             Inl e \<Rightarrow> Inl e
           | Inr (out, entry') \<Rightarrow> Inr (Some out, c\<lparr>outputs := (outputs c)[index := Some entry']\<rparr>)))"

definition getCoin :: "compressor \<Rightarrow> Coins \<Rightarrow> nat \<Rightarrow> error + (Coin option \<times> Coins)" where
  "getCoin K c index =
     (case get c index of
        None \<Rightarrow> Inr (None, c)
      | Some entry \<Rightarrow>
          (case toCoin K entry c index of
             Inl e \<Rightarrow> Inl e
           | Inr (coin, entry') \<Rightarrow> Inr (Some coin, c\<lparr>outputs := (outputs c)[index := Some entry']\<rparr>)))"

section \<open>Serialization\<close>

text \<open>
  The spent field of \<open>toRaw\<close> (lines 366-373): \<open>spent_byte\<close> is the loop over \<open>j\<close> that builds
  \<open>ch\<close>, \<open>spent_field\<close> the loop over \<open>i\<close> that writes the bytes.
\<close>

function spent_byte :: "Coins \<Rightarrow> nat \<Rightarrow> nat \<Rightarrow> nat \<Rightarrow> byte \<Rightarrow> byte" where
  "spent_byte c len i j ch =
     (if j < 8 \<and> 2 + i * 8 + j < len
      then spent_byte c len i (j + 1)
             (if isUnspent c (2 + i * 8 + j) then ch OR push_bit j 1 else ch)
      else ch)"
  by pat_completeness auto
termination
  by (relation "measure (\<lambda>(c, len, i, j, ch). 8 - j)") auto

function spent_field :: "Coins \<Rightarrow> nat \<Rightarrow> nat \<Rightarrow> nat \<Rightarrow> bytes" where
  "spent_field c len sz i =
     (if i < sz then spent_byte c len i 0 0 # spent_field c len sz (i + 1) else [])"
  by pat_completeness auto
termination
  by (relation "measure (\<lambda>(c, len, sz, i). sz - i)") auto

text \<open>
  \<open>this.outputs[i]\<close> without a bounds check (lines 377 and 407): out of range it is
  \<open>undefined\<close>, which the loops skip like \<open>null\<close>.
\<close>

definition nth_js :: "'a option list \<Rightarrow> nat \<Rightarrow> 'a option" where
  "nth_js os i = (if i < length os then os ! i else None)"

text \<open>The compressed outputs of \<open>toRaw\<close> (lines 376-383), as the bytes written.\<close>

function write_outputs :: "compressor \<Rightarrow> Coins \<Rightarrow> nat \<Rightarrow> nat \<Rightarrow> error + bytes" where
  "write_outputs K c len i =
     (if i < len then
        (case nth_js (outputs c) i of
           None \<Rightarrow> write_outputs K c len (i + 1)
         | Some out \<Rightarrow>
             if spent out then write_outputs K c len (i + 1)
             else
               (case toWriter K out of
                  Inl e \<Rightarrow> Inl e
                | Inr bs \<Rightarrow>
                    (case write_outputs K c len (i + 1) of
                       Inl e \<Rightarrow> Inl e
                     | Inr rest \<Rightarrow> Inr (bs @ rest))))
      else Inr [])"
  by pat_completeness auto
termination
  by (relation "measure (\<lambda>(K, c, len, i). len - i)") auto

text \<open>\<open>getSize\<close> (lines 396-416).\<close>

function getSize_loop :: "compressor \<Rightarrow> Coins \<Rightarrow> nat \<Rightarrow> nat \<Rightarrow> nat \<Rightarrow> error + nat" where
  "getSize_loop K c len i tot =
     (if i < len then
        (case nth_js (outputs c) i of
           None \<Rightarrow> getSize_loop K c len (i + 1) tot
         | Some out \<Rightarrow>
             if spent out then getSize_loop K c len (i + 1) tot
             else
               (case getSize_e K out of
                  Inl e \<Rightarrow> Inl e
                | Inr n \<Rightarrow> getSize_loop K c len (i + 1) (tot + n)))
      else Inr tot)"
  by pat_completeness auto
termination
  by (relation "measure (\<lambda>(K, c, len, i, tot). len - i)") auto

definition getSize :: "compressor \<Rightarrow> Coins \<Rightarrow> nat \<Rightarrow> nat \<Rightarrow> nat \<Rightarrow> error + nat" where
  "getSize K c len sz code =
     getSize_loop K c len 0 (sizeVarint (version c) + 4 + sizeVarint code + sz)"

text \<open>
  \<open>toRaw\<close> (lines 352-386). \<open>tot\<close> (the source's \<open>total\<close>) is the capacity the writer is allocated with; the
  buffer returned is the bytes written, in the order of the writes.
\<close>

definition toRaw :: "compressor \<Rightarrow> Coins \<Rightarrow> error + bytes" where
  "toRaw K c =
     (let len = length_c c; sz = (len + 5) div 8
      in case header c len sz of
           Inl e \<Rightarrow> Inl e
         | Inr code \<Rightarrow>
             (case getSize K c len sz code of
                Inl e \<Rightarrow> Inl e
              | Inr tot \<Rightarrow>
                  (case write_outputs K c len 0 of
                     Inl e \<Rightarrow> Inl e
                   | Inr tail \<Rightarrow>
                       Inr (writeVarint (version c) @ writeU32 (height c) @ writeVarint code
                            @ spent_field c len sz 0 @ tail))))"

section \<open>Deserialization\<close>

text \<open>
  ``Read headers'' (lines 436-438 of \<open>fromRaw\<close>, 496-498 of \<open>parseCoin\<close>): the version, the
  height, the header code and the cursor after them.
\<close>

definition read_headers :: "bytes \<Rightarrow> error + (nat \<times> nat \<times> nat \<times> nat)" where
  "read_headers data =
     (case readVarint data 0 of
        Inl e \<Rightarrow> Inl e
      | Inr (ver, p1) \<Rightarrow>
          (case readU32 data p1 of
             Inl e \<Rightarrow> Inl e
           | Inr (h, p2) \<Rightarrow>
               (case readVarint data p2 of
                  Inl e \<Rightarrow> Inl e
                | Inr (code, p3) \<Rightarrow> Inr (ver, h, code, p3))))"

text \<open>
  The loops of \<open>fromRaw\<close> (lines 462-471) carry \<open>this.outputs\<close> and the reader's cursor:
  \<open>fromRaw_bits\<close> is the loop over \<open>j\<close> for one byte \<open>ch\<close>, \<open>fromRaw_field\<close> the loop over \<open>i\<close>,
  with \<open>offs\<close> the source's \<open>offset\<close>.
\<close>

function fromRaw_bits ::
  "compressor \<Rightarrow> bytes \<Rightarrow> byte \<Rightarrow> nat \<Rightarrow> CoinEntry option list \<times> nat
     \<Rightarrow> error + (CoinEntry option list \<times> nat)" where
  "fromRaw_bits K data ch j (os, pos) =
     (if j < 8 then
        (if ch AND push_bit j 1 = 0 then fromRaw_bits K data ch (j + 1) (os @ [None], pos)
         else
           (case fromReader K data pos of
              Inl e \<Rightarrow> Inl e
            | Inr (entry, pos') \<Rightarrow> fromRaw_bits K data ch (j + 1) (os @ [Some entry], pos')))
      else Inr (os, pos))"
  by pat_completeness auto
termination
  by (relation "measure (\<lambda>(K, data, ch, j, st). 8 - j)") auto

function fromRaw_field ::
  "compressor \<Rightarrow> bytes \<Rightarrow> nat \<Rightarrow> nat \<Rightarrow> nat \<Rightarrow> CoinEntry option list \<times> nat
     \<Rightarrow> error + (CoinEntry option list \<times> nat)" where
  "fromRaw_field K data sz i offs st =
     (if i < sz then
        (case fromRaw_bits K data (byte_at data offs) 0 st of
           Inl e \<Rightarrow> Inl e
         | Inr st' \<Rightarrow> fromRaw_field K data sz (i + 1) (offs + 1) st')
      else Inr st)"
  by pat_completeness auto
termination
  by (relation "measure (\<lambda>(K, data, sz, i, offs, st). sz - i)") auto

text \<open>
  \<open>fromRaw\<close> (lines 426-476) pushes onto the record's own \<open>outputs\<close>; \<open>Coins.fromRaw\<close>
  (line 555) starts from a new record.
\<close>

definition fromRaw :: "compressor \<Rightarrow> Coins \<Rightarrow> bytes \<Rightarrow> string \<Rightarrow> error + Coins" where
  "fromRaw K c data hsh =
     (case read_headers data of
        Inl e \<Rightarrow> Inl e
      | Inr (ver, h, code, offs) \<Rightarrow>
          let sz = recalc_size code
          in (case seek data offs sz of
                Inl e \<Rightarrow> Inl e
              | Inr p \<Rightarrow>
                  (case (if code AND 2 \<noteq> 0
                         then (case fromReader K data p of
                                 Inl e \<Rightarrow> Inl e
                               | Inr (entry, p') \<Rightarrow> Inr (Some entry, p'))
                         else Inr (None, p)) of
                     Inl e \<Rightarrow> Inl e
                   | Inr (first, p) \<Rightarrow>
                       (case (if code AND 4 \<noteq> 0
                              then (case fromReader K data p of
                                      Inl e \<Rightarrow> Inl e
                                    | Inr (entry, p') \<Rightarrow> Inr (Some entry, p'))
                              else Inr (None, p)) of
                          Inl e \<Rightarrow> Inl e
                        | Inr (second, p) \<Rightarrow>
                            (case fromRaw_field K data sz 0 offs
                                    (outputs c @ [first, second], p) of
                               Inl e \<Rightarrow> Inl e
                             | Inr (os, p') \<Rightarrow>
                                 Inr (cleanup
                                        (c\<lparr>hash := hsh, version := ver, height := int h,
                                           coinbase := (code AND 1 \<noteq> 0),
                                           outputs := os\<rparr>)))))))"

definition Coins_fromRaw :: "compressor \<Rightarrow> bytes \<Rightarrow> string \<Rightarrow> error + Coins" where
  "Coins_fromRaw K data hsh = fromRaw K new_Coins data hsh"

section \<open>The single-coin parser\<close>

text \<open>
  One slot of the walk of \<open>parseCoin\<close> (lines 516-526 and 533-543, the same statements):
  either the function returns, or the walk goes on with the index decremented and the
  cursor moved.
\<close>

datatype walk = Return "Coin option" | Continue nat nat

definition parse_slot ::
  "compressor \<Rightarrow> bytes \<Rightarrow> Coin \<Rightarrow> bool \<Rightarrow> nat \<Rightarrow> nat \<Rightarrow> error + walk" where
  "parse_slot K data coin present index pos =
     (if present then
        (if index = 0 then
           (case output_at K data pos of
              Inl e \<Rightarrow> Inl e
            | Inr out \<Rightarrow>
                Inr (Return (Some (coin\<lparr>coin_value := out_value out,
                                         coin_script := out_script out\<rparr>))))
         else
           (case skip_at K data pos of
              Inl e \<Rightarrow> Inl e
            | Inr n \<Rightarrow> Inr (Continue (index - 1) (pos + n))))
      else
        (if index = 0 then Inr (Return None) else Inr (Continue (index - 1) pos)))"

function parseCoin_first ::
  "compressor \<Rightarrow> bytes \<Rightarrow> Coin \<Rightarrow> nat \<Rightarrow> nat \<Rightarrow> nat \<Rightarrow> nat \<Rightarrow> error + walk" where
  "parseCoin_first K data coin code i index pos =
     (if i < 2 then
        (case parse_slot K data coin (code AND push_bit i 2 \<noteq> 0) index pos of
           Inl e \<Rightarrow> Inl e
         | Inr (Return r) \<Rightarrow> Inr (Return r)
         | Inr (Continue index' pos') \<Rightarrow> parseCoin_first K data coin code (i + 1) index' pos')
      else Inr (Continue index pos))"
  by pat_completeness auto
termination
  by (relation "measure (\<lambda>(K, data, coin, code, i, index, pos). 2 - i)") auto

function parseCoin_bits ::
  "compressor \<Rightarrow> bytes \<Rightarrow> Coin \<Rightarrow> byte \<Rightarrow> nat \<Rightarrow> nat \<Rightarrow> nat \<Rightarrow> error + walk" where
  "parseCoin_bits K data coin ch j index pos =
     (if j < 8 then
        (case parse_slot K data coin (ch AND push_bit j 1 \<noteq> 0) index pos of
           Inl e \<Rightarrow> Inl e
         | Inr (Return r) \<Rightarrow> Inr (Return r)
         | Inr (Continue index' pos') \<Rightarrow> parseCoin_bits K data coin ch (j + 1) index' pos')
      else Inr (Continue index pos))"
  by pat_completeness auto
termination
  by (relation "measure (\<lambda>(K, data, coin, ch, j, index, pos). 8 - j)") auto

function parseCoin_field ::
  "compressor \<Rightarrow> bytes \<Rightarrow> Coin \<Rightarrow> nat \<Rightarrow> nat \<Rightarrow> nat \<Rightarrow> nat \<Rightarrow> nat \<Rightarrow> error + walk" where
  "parseCoin_field K data coin sz i offs index pos =
     (if i < sz then
        (case parseCoin_bits K data coin (byte_at data offs) 0 index pos of
           Inl e \<Rightarrow> Inl e
         | Inr (Return r) \<Rightarrow> Inr (Return r)
         | Inr (Continue index' pos') \<Rightarrow>
             parseCoin_field K data coin sz (i + 1) (offs + 1) index' pos')
      else Inr (Continue index pos))"
  by pat_completeness auto
termination
  by (relation "measure (\<lambda>(K, data, coin, sz, i, offs, index, pos). sz - i)") auto

text \<open>
  \<open>parseCoin\<close> (lines 486-546). The coin carries the hash and the index passed by the
  caller and the three header fields; its value and script are set by \<open>decompress.coin\<close>
  in \<open>parse_slot\<close> before it is returned. The function returns \<open>undefined\<close> (\<open>None\<close>) when the
  loops end.
\<close>

definition parseCoin :: "compressor \<Rightarrow> bytes \<Rightarrow> string \<Rightarrow> nat \<Rightarrow> error + Coin option" where
  "parseCoin K data hsh index =
     (case read_headers data of
        Inl e \<Rightarrow> Inl e
      | Inr (ver, h, code, offs) \<Rightarrow>
          let coin = \<lparr>coin_version = ver, coin_coinbase = (code AND 1 \<noteq> 0),
                      coin_height = int h, coin_hash = hsh, coin_index = index,
                      coin_script = [], coin_value = 0\<rparr>;
              sz = recalc_size code
          in if index \<ge> 2 + sz * 8 then Inr None
             else
               (case seek data offs sz of
                  Inl e \<Rightarrow> Inl e
                | Inr p \<Rightarrow>
                    (case parseCoin_first K data coin code 0 index p of
                       Inl e \<Rightarrow> Inl e
                     | Inr (Return r) \<Rightarrow> Inr r
                     | Inr (Continue index' p') \<Rightarrow>
                         (case parseCoin_field K data coin sz 0 offs index' p' of
                            Inl e \<Rightarrow> Inl e
                          | Inr (Return r) \<Rightarrow> Inr r
                          | Inr (Continue index'' p'') \<Rightarrow> Inr None))))"

section \<open>Specification vocabulary\<close>

text \<open>
  The contract of the compressor (section 4.1 of the specification), for a canonical
  reconstruction \<open>canon\<close> of outputs: \<open>compress.size\<close> is the number of bytes
  \<open>compress.output\<close> writes; \<open>decompress.skip\<close> passes exactly those bytes and
  \<open>decompress.output\<close> reads the canonical output back from them, whatever follows in
  the buffer; both decompressors read nothing beyond the bytes \<open>decompress.skip\<close> passes;
  reconstruction is idempotent.
\<close>

definition compressor_ok :: "compressor \<Rightarrow> (Output \<Rightarrow> Output) \<Rightarrow> bool" where
  "compressor_ok K canon \<longleftrightarrow>
     (\<forall>out. compress_size K out = length (compress_output K out)) \<and>
     (\<forall>out rest.
        decompress_skip K (compress_output K out @ rest) = Some (length (compress_output K out)) \<and>
        decompress_output K (compress_output K out @ rest) = Some (canon out)) \<and>
     (\<forall>bs n rest.
        decompress_skip K bs = Some n \<longrightarrow>
          n \<le> length bs \<and> decompress_skip K (take n bs @ rest) = Some n \<and>
          decompress_output K (take n bs @ rest) = decompress_output K bs) \<and>
     (\<forall>out. canon (canon out) = canon out)"

text \<open>
  The entries the three constructors build, before and after \<open>toOutput\<close>: an entry without
  a buffer holds an output; an entry with a buffer points at bytes that \<open>decompress.skip\<close>
  passes in \<open>size\<close> steps, and its cache, when filled, holds what \<open>decompress.output\<close> reads
  there. A record is well formed when its entries are.
\<close>

definition wf_entry :: "compressor \<Rightarrow> CoinEntry \<Rightarrow> bool" where
  "wf_entry K entry =
     (case raw entry of
        None \<Rightarrow> output_e entry \<noteq> None
      | Some buf \<Rightarrow>
          decompress_skip K (drop (offset entry) buf) = Some (size_e entry) \<and>
          (case output_e entry of
             None \<Rightarrow> True
           | Some out \<Rightarrow> decompress_output K (drop (offset entry) buf) = Some out))"

definition wf_coins :: "compressor \<Rightarrow> Coins \<Rightarrow> bool" where
  "wf_coins K c = (\<forall>entry. Some entry \<in> set (outputs c) \<longrightarrow> wf_entry K entry)"

text \<open>The output a call of \<open>getOutput\<close> yields, without the record.\<close>

definition output_of :: "compressor \<Rightarrow> Coins \<Rightarrow> nat \<Rightarrow> error + Output option" where
  "output_of K c index =
     (case getOutput K c index of Inl e \<Rightarrow> Inl e | Inr (out, c') \<Rightarrow> Inr out)"

text \<open>The coin a call of \<open>getCoin\<close> yields, without the record.\<close>

definition coin_of :: "compressor \<Rightarrow> Coins \<Rightarrow> nat \<Rightarrow> error + Coin option" where
  "coin_of K c index =
     (case getCoin K c index of Inl e \<Rightarrow> Inl e | Inr (coin, c') \<Rightarrow> Inr coin)"

text \<open>\<open>toRaw\<close> followed by \<open>Coins.fromRaw\<close> with the record's own hash.\<close>

definition reload :: "compressor \<Rightarrow> Coins \<Rightarrow> error + Coins" where
  "reload K c = (case toRaw K c of Inl e \<Rightarrow> Inl e | Inr buf \<Rightarrow> Coins_fromRaw K buf (hash c))"

text \<open>\<open>Coins.fromRaw\<close> followed by \<open>toRaw\<close>, with no call in between.\<close>

definition rewrite :: "compressor \<Rightarrow> bytes \<Rightarrow> string \<Rightarrow> error + bytes" where
  "rewrite K data hsh = (case Coins_fromRaw K data hsh of Inl e \<Rightarrow> Inl e | Inr c \<Rightarrow> toRaw K c)"

text \<open>The mutations of a record, and the record after one of them.\<close>

datatype mutation =
  Add nat CoinEntry | AddOutput nat Output | AddCoin Coin | Spend nat | Remove nat | Cleanup

fun mutate :: "(bytes \<Rightarrow> bool) \<Rightarrow> mutation \<Rightarrow> Coins \<Rightarrow> error + Coins" where
  "mutate isUnspendable (Add index entry) c = add c index entry"
| "mutate isUnspendable (AddOutput index out) c = addOutput isUnspendable c index out"
| "mutate isUnspendable (AddCoin coin) c = addCoin isUnspendable c coin"
| "mutate isUnspendable (Spend index) c = Inr (snd (spend c index))"
| "mutate isUnspendable (Remove index) c = Inr (snd (remove c index))"
| "mutate isUnspendable Cleanup c = Inr (cleanup c)"

text \<open>No trailing gap: the last slot of \<open>outputs\<close>, when there is one, holds an entry.\<close>

definition no_trailing_gap :: "Coins \<Rightarrow> bool" where
  "no_trailing_gap c = (outputs c = [] \<or> last (outputs c) \<noteq> None)"

text \<open>The last slot holds an entry that is not marked spent.\<close>

definition last_unspent :: "Coins \<Rightarrow> bool" where
  "last_unspent c =
     (outputs c \<noteq> [] \<and> (case last (outputs c) of None \<Rightarrow> False | Some entry \<Rightarrow> \<not> spent entry))"

text \<open>The three low bits of a header code: coinbase, first unspent, second unspent.\<close>

definition low_bits :: "bool \<Rightarrow> bool \<Rightarrow> bool \<Rightarrow> nat" where
  "low_bits cb first second =
     (if cb then (if first then (if second then 7 else 3) else (if second then 5 else 1))
      else (if first then (if second then 6 else 2) else (if second then 4 else 0)))"

section \<open>A reference compressor and example records\<close>

text \<open>
  Modelled from the spec: the raw-script row of the table of section 4.1 (a varint
  \<open>n \<ge> 0x10\<close>, then \<open>n - 0x10\<close> script bytes) after the varint of the value. The script
  templates are left out; their prefixes are decode errors here. This compressor meets
  the contract with the identity as reconstruction and serves the examples.
\<close>

definition raw_decompress :: "bytes \<Rightarrow> (Output \<times> nat) option" where
  "raw_decompress bs =
     (case read_varint_loop bs 0 of
        None \<Rightarrow> None
      | Some (v, k) \<Rightarrow>
          (case read_varint_loop (drop k bs) 0 of
             None \<Rightarrow> None
           | Some (n, k') \<Rightarrow>
               if n < 0x10 then None
               else if length bs < k + k' + (n - 0x10) then None
               else Some (\<lparr>out_value = v, out_script = take (n - 0x10) (drop (k + k') bs)\<rparr>,
                          k + k' + (n - 0x10))))"

definition raw_compressor :: compressor where
  "raw_compressor =
     \<lparr>compress_output =
        (\<lambda>out. writeVarint (out_value out) @ writeVarint (length (out_script out) + 0x10)
                @ out_script out),
      compress_size =
        (\<lambda>out. sizeVarint (out_value out) + sizeVarint (length (out_script out) + 0x10)
                + length (out_script out)),
      decompress_output = (\<lambda>bs. map_option fst (raw_decompress bs)),
      decompress_skip = (\<lambda>bs. map_option snd (raw_decompress bs))\<rparr>"

text \<open>An output of 5 units with the one-byte script \<open>0x51\<close>, and records that hold it.\<close>

definition out51 :: Output where
  "out51 = \<lparr>out_value = 5, out_script = [0x51]\<rparr>"

definition coins_one :: Coins where
  "coins_one =
     \<lparr>version = 1, hash = NULL_HASH, height = 100, coinbase = True,
      outputs = [Some (fromOutput out51)]\<rparr>"

definition coins_unconfirmed :: Coins where
  "coins_unconfirmed = coins_one\<lparr>height := -1\<rparr>"

definition coins_third :: Coins where
  "coins_third =
     \<lparr>version = 1, hash = NULL_HASH, height = 100, coinbase = False,
      outputs = [None, None, Some (fromOutput out51)]\<rparr>"

definition coins_nine :: Coins where
  "coins_nine =
     \<lparr>version = 1, hash = NULL_HASH, height = 100, coinbase = False,
      outputs = replicate 8 None @ [Some (fromOutput out51)]\<rparr>"

definition coins_nine_coinbase :: Coins where
  "coins_nine_coinbase = coins_nine\<lparr>coinbase := True\<rparr>"

definition coins_eleven :: Coins where
  "coins_eleven =
     \<lparr>version = 1, hash = NULL_HASH, height = 100, coinbase = False,
      outputs = replicate 10 None @ [Some (fromOutput out51)]\<rparr>"

definition coins_gap :: Coins where
  "coins_gap =
     \<lparr>version = 1, hash = NULL_HASH, height = 100, coinbase = False,
      outputs = [Some (fromOutput out51), None, Some (fromOutput out51)]\<rparr>"

section \<open>Runs of slots\<close>

text \<open>
  The functions of this section describe, for the proofs, what the loops of \<open>toRaw\<close>,
  \<open>fromRaw\<close> and \<open>parseCoin\<close> do with a run of slots. A slot is live when it holds an entry
  that is not marked spent; \<open>slots c n\<close> is the first \<open>n\<close> slots of a record, \<open>null\<close> past
  the end of \<open>outputs\<close>.
\<close>

definition live :: "CoinEntry option \<Rightarrow> bool" where
  "live s = (case s of None \<Rightarrow> False | Some entry \<Rightarrow> \<not> spent entry)"

definition slots :: "Coins \<Rightarrow> nat \<Rightarrow> CoinEntry option list" where
  "slots c n = map (nth_js (outputs c)) [0..<n]"

text \<open>The bytes \<open>toRaw\<close> writes for a slot: those of \<open>toWriter\<close> if the slot is live, none if not.\<close>

definition slot_bytes :: "compressor \<Rightarrow> CoinEntry option \<Rightarrow> bytes" where
  "slot_bytes K s =
     (case s of
        None \<Rightarrow> []
      | Some entry \<Rightarrow>
          if spent entry then []
          else (case toWriter K entry of Inl e \<Rightarrow> [] | Inr bs \<Rightarrow> bs))"

text \<open>The bits of a byte, least significant first, and those of \<open>sz\<close> bytes of a buffer.\<close>

definition byte_bits :: "byte \<Rightarrow> bool list" where
  "byte_bits ch = map (\<lambda>j. ch AND push_bit j 1 \<noteq> 0) [0..<8]"

definition field_bits :: "bytes \<Rightarrow> nat \<Rightarrow> nat \<Rightarrow> bool list" where
  "field_bits data offs sz = concat (map (\<lambda>i. byte_bits (byte_at data (offs + i))) [0..<sz])"

text \<open>
  Reading a run of slots from a cursor, one presence bit per slot: an entry from the reader
  where the bit is set, \<open>null\<close> where it is clear.
\<close>

fun read_slots ::
  "compressor \<Rightarrow> bytes \<Rightarrow> nat \<Rightarrow> bool list \<Rightarrow> error + (CoinEntry option list \<times> nat)" where
  "read_slots K data pos [] = Inr ([], pos)"
| "read_slots K data pos (b # bs) =
     (if b then
        (case fromReader K data pos of
           Inl e \<Rightarrow> Inl e
         | Inr (entry, pos') \<Rightarrow>
             (case read_slots K data pos' bs of
                Inl e \<Rightarrow> Inl e
              | Inr (es, p) \<Rightarrow> Inr (Some entry # es, p)))
      else
        (case read_slots K data pos bs of
           Inl e \<Rightarrow> Inl e
         | Inr (es, p) \<Rightarrow> Inr (None # es, p)))"

text \<open>
  The entries that reading builds from a buffer holding, from \<open>pos\<close> on, the bytes of the
  given slots: one entry per live slot, pointing at that slot's bytes.
\<close>

fun loaded :: "compressor \<Rightarrow> bytes \<Rightarrow> nat \<Rightarrow> CoinEntry option list \<Rightarrow> CoinEntry option list" where
  "loaded K data pos [] = []"
| "loaded K data pos (s # ss) =
     (if live s then
        Some (new_CoinEntry\<lparr>offset := pos, size_e := length (slot_bytes K s), raw := Some data\<rparr>)
          # loaded K data (pos + length (slot_bytes K s)) ss
      else None # loaded K data pos ss)"

text \<open>The walk of \<open>parseCoin\<close> over a run of slots, one presence bit per slot.\<close>

fun walk_slots ::
  "compressor \<Rightarrow> bytes \<Rightarrow> Coin \<Rightarrow> nat \<Rightarrow> nat \<Rightarrow> bool list \<Rightarrow> error + walk" where
  "walk_slots K data coin index pos [] = Inr (Continue index pos)"
| "walk_slots K data coin index pos (b # bs) =
     (case parse_slot K data coin b index pos of
        Inl e \<Rightarrow> Inl e
      | Inr (Return r) \<Rightarrow> Inr (Return r)
      | Inr (Continue index' pos') \<Rightarrow> walk_slots K data coin index' pos' bs)"

text \<open>The byte \<open>write_varint_loop\<close> emits for \<open>n\<close>, with or without the continuation bit.\<close>

definition vbyte :: "nat \<Rightarrow> bool \<Rightarrow> byte" where
  "vbyte n cont = word_of_nat (n AND 0x7F) OR (if cont then 0x80 else 0)"

section \<open>Proof setup\<close>

text \<open>
  The equations of the loops are unfolded by hand, one iteration at a time; they are not
  simplification rules.
\<close>

declare add_pad.simps [simp del]
declare write_varint_loop.simps [simp del]
declare spent_byte.simps [simp del]
declare spent_field.simps [simp del]
declare write_outputs.simps [simp del]
declare getSize_loop.simps [simp del]
declare fromRaw_bits.simps [simp del]
declare fromRaw_field.simps [simp del]
declare parseCoin_first.simps [simp del]
declare parseCoin_bits.simps [simp del]
declare parseCoin_field.simps [simp del]

section \<open>The container: marking, removing, trimming\<close>

lemma get_Some_iff:
  "get c i = Some e \<longleftrightarrow> i < length (outputs c) \<and> outputs c ! i = Some e"
  by (auto simp: get_def)

lemma isUnspent_iff:
  "isUnspent c i \<longleftrightarrow> (\<exists>e. get c i = Some e \<and> \<not> spent e)"
  by (auto simp: isUnspent_def get_def split: option.splits)

lemma spend_unspent:
  assumes "get c i = Some e" and "\<not> spent e"
  shows "spend c i = (Some (e\<lparr>spent := True\<rparr>), c\<lparr>outputs := (outputs c)[i := Some (e\<lparr>spent := True\<rparr>)]\<rparr>)"
  using assms by (simp add: spend_def)

lemma spend_noop:
  "\<not> isUnspent c i \<Longrightarrow> spend c i = (None, c)"
  by (auto simp: spend_def isUnspent_iff split: option.splits)

lemma isUnspent_after_spend:
  "\<not> isUnspent (snd (spend c i)) i"
  by (cases "i < length (outputs c)")
     (auto simp: spend_def isUnspent_def get_def split: option.splits)

text \<open>
  C8. \<open>spend\<close> is idempotent: a second \<open>spend(i)\<close> returns nothing and leaves the record as
  the first call left it. On an unspent entry the first call returns the entry, marked
  spent; on an absent or spent slot it returns nothing and changes nothing.
\<close>

theorem spend_idempotent:
  "spend (snd (spend c i)) i = (None, snd (spend c i)) \<and>
   (isUnspent c i \<longrightarrow>
      (\<exists>e. get c i = Some e \<and> \<not> spent e \<and> fst (spend c i) = Some (e\<lparr>spent := True\<rparr>) \<and>
           get (snd (spend c i)) i = Some (e\<lparr>spent := True\<rparr>))) \<and>
   (\<not> isUnspent c i \<longrightarrow> spend c i = (None, c))"
proof (intro conjI impI)
  show "spend (snd (spend c i)) i = (None, snd (spend c i))"
    by (rule spend_noop) (rule isUnspent_after_spend)
next
  assume "isUnspent c i"
  then obtain e where e: "get c i = Some e" "\<not> spent e"
    by (auto simp: isUnspent_iff)
  then have "i < length (outputs c)"
    by (simp add: get_Some_iff)
  then have "get (snd (spend c i)) i = Some (e\<lparr>spent := True\<rparr>)"
    by (simp add: spend_unspent[OF e] get_def)
  then show "\<exists>e. get c i = Some e \<and> \<not> spent e \<and> fst (spend c i) = Some (e\<lparr>spent := True\<rparr>) \<and>
           get (snd (spend c i)) i = Some (e\<lparr>spent := True\<rparr>)"
    using e by (auto simp: spend_unspent[OF e])
next
  assume "\<not> isUnspent c i"
  then show "spend c i = (None, c)"
    by (rule spend_noop)
qed

theorem spend_idempotent_witness:
  "isUnspent coins_one 0 \<and> \<not> isUnspent coins_third 0 \<and>
   fst (spend coins_one 0) = Some (fromOutput out51\<lparr>spent := True\<rparr>) \<and>
   spend (snd (spend coins_one 0)) 0 = (None, snd (spend coins_one 0)) \<and>
   spend coins_third 0 = (None, coins_third)"
proof -
  have a: "isUnspent coins_one 0"
    by (simp add: isUnspent_def coins_one_def fromOutput_def new_CoinEntry_def)
  have b: "\<not> isUnspent coins_third 0"
    by (simp add: isUnspent_def coins_third_def)
  have g: "get coins_one 0 = Some (fromOutput out51)"
    by (simp add: get_def coins_one_def)
  show ?thesis
    using spend_idempotent[of coins_one 0] spend_idempotent[of coins_third 0] a b g
    by auto
qed

lemma cleanup_loop_le: "cleanup_loop os n \<le> n"
  by (induction n) auto

lemma cleanup_loop_gaps: "cleanup_loop os n \<le> k \<Longrightarrow> k < n \<Longrightarrow> os ! k = None"
proof (induction n)
  case 0
  then show ?case by simp
next
  case (Suc n)
  then show ?case
    by (cases "k = n") (auto split: if_splits)
qed

lemma cleanup_loop_last: "cleanup_loop os n = Suc k \<Longrightarrow> os ! k \<noteq> None"
  by (induction n) (auto split: if_splits)

lemma cleanup_loop_id: "n = 0 \<or> os ! (n - 1) \<noteq> None \<Longrightarrow> cleanup_loop os n = n"
  by (cases n) auto

lemma length_cleanup: "length (outputs (cleanup c)) = cleanup_loop (outputs c) (length (outputs c))"
  by (simp add: cleanup_def cleanup_loop_le)

lemma get_cleanup: "get (cleanup c) i = get c i"
proof (cases "i < cleanup_loop (outputs c) (length (outputs c))")
  case True
  then show ?thesis
    using cleanup_loop_le[of "outputs c" "length (outputs c)"]
    by (simp add: get_def cleanup_def)
next
  case False
  then have "get (cleanup c) i = None"
    by (simp add: get_def length_cleanup)
  moreover have "get c i = None"
    using False cleanup_loop_gaps[of "outputs c" "length (outputs c)" i]
    by (auto simp: get_def)
  ultimately show ?thesis by simp
qed

lemma has_get: "has c i \<longleftrightarrow> get c i \<noteq> None"
  by (simp add: has_def get_def)

lemma isUnspent_get: "isUnspent c i \<longleftrightarrow> (case get c i of None \<Rightarrow> False | Some e \<Rightarrow> \<not> spent e)"
  by (simp add: isUnspent_def get_def)

lemma isUnspent_cleanup: "isUnspent (cleanup c) i = isUnspent c i"
  by (simp add: isUnspent_get get_cleanup)

lemma no_trailing_gap_cleanup: "no_trailing_gap (cleanup c)"
proof (cases "cleanup_loop (outputs c) (length (outputs c))")
  case 0
  then show ?thesis by (simp add: no_trailing_gap_def cleanup_def)
next
  case (Suc k)
  have le: "Suc k \<le> length (outputs c)"
    using cleanup_loop_le[of "outputs c" "length (outputs c)"] Suc by simp
  then have "last (take (Suc k) (outputs c)) = outputs c ! k"
    by (simp add: take_Suc_conv_app_nth)
  then show ?thesis
    using cleanup_loop_last[OF Suc] by (simp add: no_trailing_gap_def cleanup_def Suc)
qed

lemma cleanup_no_trailing_gap: "no_trailing_gap c \<Longrightarrow> cleanup c = c"
proof -
  assume "no_trailing_gap c"
  then have "length (outputs c) = 0 \<or> outputs c ! (length (outputs c) - 1) \<noteq> None"
    by (auto simp: no_trailing_gap_def last_conv_nth)
  then have "cleanup_loop (outputs c) (length (outputs c)) = length (outputs c)"
    by (rule cleanup_loop_id)
  then show ?thesis by (simp add: cleanup_def)
qed

section \<open>Unspendable outputs\<close>

lemma fromTX_loop_eq:
  "fromTX_loop u outs os =
     os @ map (\<lambda>out. if u (out_script out) then None else Some (fromOutput out)) outs"
  by (induction outs arbitrary: os) auto

lemma get_fromTX:
  assumes "i < length (tx_outputs tx)"
  shows "get (fromTX u c tx h) (length (outputs c) + i) =
           (if u (out_script (tx_outputs tx ! i)) then None else Some (fromOutput (tx_outputs tx ! i)))"
  unfolding fromTX_def get_cleanup
  using assms by (simp add: get_def fromTX_loop_eq nth_append)

text \<open>
  C9. An output with an unspendable script is never stored: \<open>addOutput\<close> and \<open>addCoin\<close> fail
  on their assertion, and \<open>fromTX\<close> leaves a gap in the slot of every such output of the
  transaction (slot \<open>i\<close> of a new record, slot \<open>outputs.length + i\<close> in general), while a
  spendable output gets its entry.
\<close>

theorem unspendable_never_stored:
  "(isUnspendable (out_script out) \<longrightarrow>
      addOutput isUnspendable c index out = Inl (AssertionError [])) \<and>
   (isUnspendable (coin_script coin) \<longrightarrow>
      addCoin isUnspendable c coin = Inl (AssertionError [])) \<and>
   (\<forall>i < length (tx_outputs tx).
      if isUnspendable (out_script (tx_outputs tx ! i)) then
        get (Coins_fromTX isUnspendable tx h) i = None \<and>
        \<not> has (Coins_fromTX isUnspendable tx h) i \<and>
        get (fromTX isUnspendable c tx h) (length (outputs c) + i) = None
      else
        get (Coins_fromTX isUnspendable tx h) i = Some (fromOutput (tx_outputs tx ! i)))"
proof (intro conjI impI allI)
  fix i assume i: "i < length (tx_outputs tx)"
  have "get (Coins_fromTX isUnspendable tx h) i =
          (if isUnspendable (out_script (tx_outputs tx ! i)) then None
           else Some (fromOutput (tx_outputs tx ! i)))"
    using get_fromTX[OF i, of isUnspendable new_Coins h]
    by (simp add: Coins_fromTX_def new_Coins_def)
  then show "if isUnspendable (out_script (tx_outputs tx ! i)) then
        get (Coins_fromTX isUnspendable tx h) i = None \<and>
        \<not> has (Coins_fromTX isUnspendable tx h) i \<and>
        get (fromTX isUnspendable c tx h) (length (outputs c) + i) = None
      else
        get (Coins_fromTX isUnspendable tx h) i = Some (fromOutput (tx_outputs tx ! i))"
    using get_fromTX[OF i, of isUnspendable c h] by (simp add: has_get)
qed (simp_all add: addOutput_def addCoin_def)

theorem unspendable_never_stored_witness:
  "addOutput (\<lambda>s. take 1 s = [0x6A]) new_Coins 0 \<lparr>out_value = 0, out_script = [0x6A, 0x01]\<rparr>
     = Inl (AssertionError []) \<and>
   addCoin (\<lambda>s. take 1 s = [0x6A]) new_Coins
     \<lparr>coin_version = 1, coin_coinbase = False, coin_height = 7, coin_hash = NULL_HASH,
      coin_index = 0, coin_script = [0x6A], coin_value = 0\<rparr> = Inl (AssertionError []) \<and>
   get (Coins_fromTX (\<lambda>s. take 1 s = [0x6A])
          \<lparr>tx_version = 1, tx_hash = NULL_HASH, tx_isCoinbase = False,
           tx_outputs = [\<lparr>out_value = 0, out_script = [0x6A, 0x01]\<rparr>, out51]\<rparr> 7) 0 = None \<and>
   get (Coins_fromTX (\<lambda>s. take 1 s = [0x6A])
          \<lparr>tx_version = 1, tx_hash = NULL_HASH, tx_isCoinbase = False,
           tx_outputs = [\<lparr>out_value = 0, out_script = [0x6A, 0x01]\<rparr>, out51]\<rparr> 7) 1
     = Some (fromOutput out51)"
proof -
  let ?u = "\<lambda>s::bytes. take 1 s = [0x6A]"
  let ?o = "\<lparr>out_value = 0, out_script = [0x6A, 0x01]\<rparr>"
  let ?coin = "\<lparr>coin_version = 1, coin_coinbase = False, coin_height = 7, coin_hash = NULL_HASH,
      coin_index = 0, coin_script = [0x6A], coin_value = 0\<rparr>"
  let ?tx = "\<lparr>tx_version = 1, tx_hash = NULL_HASH, tx_isCoinbase = False, tx_outputs = [?o, out51]\<rparr>"
  note inst = unspendable_never_stored[of ?u ?o new_Coins 0 ?coin ?tx 7]
  have a: "addOutput ?u new_Coins 0 ?o = Inl (AssertionError [])"
    and b: "addCoin ?u new_Coins ?coin = Inl (AssertionError [])"
    using inst by simp_all
  from inst have all: "\<forall>i < length (tx_outputs ?tx).
      if ?u (out_script (tx_outputs ?tx ! i)) then
        get (Coins_fromTX ?u ?tx 7) i = None \<and>
        \<not> has (Coins_fromTX ?u ?tx 7) i \<and>
        get (fromTX ?u new_Coins ?tx 7) (length (outputs new_Coins) + i) = None
      else
        get (Coins_fromTX ?u ?tx 7) i = Some (fromOutput (tx_outputs ?tx ! i))"
    by blast
  from all[rule_format, of 0] have c: "get (Coins_fromTX ?u ?tx 7) 0 = None"
    by simp
  from all[rule_format, of 1] have d: "get (Coins_fromTX ?u ?tx 7) 1 = Some (fromOutput out51)"
    by (simp add: out51_def)
  from a b c d show ?thesis by simp
qed

section \<open>The header code\<close>

lemma and_low3: "((8 * k + b)::nat) AND m = b AND m" if "b < 8" "m < 8"
proof -
  have m: "m = take_bit 3 m" using that by (simp add: take_bit_eq_mod)
  have "(8 * k + b) AND m = (8 * k + b) AND take_bit 3 m" using m by simp
  also have "\<dots> = take_bit 3 (8 * k + b) AND m"
    by (simp add: take_bit_eq_mask and.assoc and.left_commute and.commute)
  also have "take_bit 3 (8 * k + b) = b" using that by (simp add: take_bit_eq_mod)
  finally show ?thesis .
qed

lemma low_bits_lt: "low_bits cb f s < 8"
  by (simp add: low_bits_def)

lemma low_bits_and1: "(low_bits cb f s AND 1 \<noteq> 0) = cb"
  by (simp add: low_bits_def)

lemma low_bits_and2: "(low_bits cb f s AND 2 \<noteq> 0) = f"
  by (simp add: low_bits_def)

lemma low_bits_and4: "(low_bits cb f s AND 4 \<noteq> 0) = s"
  by (simp add: low_bits_def)

lemma low_bits_and6: "(low_bits cb f s AND 6 = 0) = (\<not> f \<and> \<not> s)"
  by (simp add: low_bits_def)

lemma header_Inr:
  "header c len sz = Inr code \<longleftrightarrow>
     len \<noteq> 0 \<and> (isUnspent c 0 \<or> isUnspent c 1 \<or> sz \<noteq> 0) \<and>
     code = 8 * (if isUnspent c 0 \<or> isUnspent c 1 then sz else sz - 1)
            + low_bits (coinbase c) (isUnspent c 0) (isUnspent c 1)"
  by (auto simp: header_def Let_def low_bits_def)

lemma code_and:
  assumes "code = 8 * k + low_bits cb f s"
  shows "(code AND 1 \<noteq> 0) = cb" and "(code AND 2 \<noteq> 0) = f" and "(code AND 4 \<noteq> 0) = s"
    and "(code AND 6 = 0) = (\<not> f \<and> \<not> s)" and "code div 8 = k"
proof -
  have m: "code AND m = low_bits cb f s AND m" if "m < 8" for m
    unfolding assms using low_bits_lt that by (rule and_low3)
  have lt8: "(1::nat) < 8" "(2::nat) < 8" "(4::nat) < 8" "(6::nat) < 8"
    by simp_all
  show "(code AND 1 \<noteq> 0) = cb"
    unfolding m[of 1, OF lt8(1)] by (rule low_bits_and1)
  show "(code AND 2 \<noteq> 0) = f"
    unfolding m[of 2, OF lt8(2)] by (rule low_bits_and2)
  show "(code AND 4 \<noteq> 0) = s"
    unfolding m[of 4, OF lt8(3)] by (rule low_bits_and4)
  show "(code AND 6 = 0) = (\<not> f \<and> \<not> s)"
    unfolding m[of 6, OF lt8(4)] by (rule low_bits_and6)
  show "code div 8 = k"
    unfolding assms using low_bits_lt[of cb f s] by simp
qed

lemma header_recalc:
  assumes "header c len sz = Inr code"
  shows "recalc_size code = sz"
proof -
  let ?k = "if isUnspent c 0 \<or> isUnspent c 1 then sz else sz - 1"
  have code: "code = 8 * ?k + low_bits (coinbase c) (isUnspent c 0) (isUnspent c 1)"
    and nz: "isUnspent c 0 \<or> isUnspent c 1 \<or> sz \<noteq> 0"
    using assms unfolding header_Inr by blast+
  show ?thesis
    unfolding recalc_size_def Let_def code_and(4,5)[OF code] using nz by auto
qed

section \<open>Fully spent records\<close>

text \<open>
  C5. Serializing a fully spent record is an error: when \<open>length()\<close> is 0, \<open>toRaw\<close> fails with
  the assertion message of \<open>header\<close>; the result is the error, no buffer.
\<close>

theorem toRaw_fully_spent:
  "length_c c = 0 \<Longrightarrow> toRaw K c = Inl (AssertionError ''Cannot serialize fully-spent coins.'')"
  by (simp add: toRaw_def header_def)

theorem toRaw_fully_spent_witness:
  "length_c (snd (spend coins_one 0)) = 0 \<and>
   toRaw raw_compressor (snd (spend coins_one 0))
     = Inl (AssertionError ''Cannot serialize fully-spent coins.'')"
proof -
  have "length_c (snd (spend coins_one 0)) = 0"
    by (simp add: length_c_def spend_def get_def isUnspent_def coins_one_def)
  then show ?thesis
    using toRaw_fully_spent[of "snd (spend coins_one 0)" raw_compressor] by simp
qed

section \<open>The shape of \<open>outputs\<close> after a mutation\<close>

lemma isUnspent_nth:
  "i < length (outputs c) \<Longrightarrow>
     isUnspent c i = (case outputs c ! i of None \<Rightarrow> False | Some e \<Rightarrow> \<not> spent e)"
  by (simp add: isUnspent_def)

lemma add_pad_eq: "add_pad os i = os @ replicate (Suc i - length os) None"
proof (induction os i rule: add_pad.induct)
  case (1 os index)
  show ?case
  proof (cases "length os \<le> index")
    case True
    then have "Suc index - length os = Suc (index - length os)"
      by simp
    then show ?thesis
      using True "1.IH" by (subst add_pad.simps) (simp add: replicate_app_Cons_same)
  next
    case False
    then show ?thesis
      by (subst add_pad.simps) simp
  qed
qed

lemma length_loop_le: "length_loop c n \<le> n"
  by (induction n) auto

lemma length_loop_full: "length_loop c n = n \<longleftrightarrow> n = 0 \<or> isUnspent c (n - 1)"
proof (cases n)
  case 0
  then show ?thesis by simp
next
  case (Suc k)
  then show ?thesis
    using length_loop_le[of c k] by auto
qed

lemma length_c_full:
  "length (outputs c) = length_c c \<longleftrightarrow> outputs c = [] \<or> last_unspent c"
proof -
  have "last_unspent c \<longleftrightarrow> outputs c \<noteq> [] \<and> isUnspent c (length (outputs c) - 1)"
  proof (cases "outputs c = []")
    case True
    then show ?thesis by (simp add: last_unspent_def)
  next
    case False
    then have "last (outputs c) = outputs c ! (length (outputs c) - 1)"
      by (rule last_conv_nth)
    moreover have "length (outputs c) - 1 < length (outputs c)"
      using False by simp
    ultimately show ?thesis
      using False by (simp add: last_unspent_def isUnspent_nth)
  qed
  then show ?thesis
    using length_loop_full[of c "length (outputs c)"] by (auto simp: length_c_def)
qed

lemma no_trailing_gap_nth:
  "no_trailing_gap c \<longleftrightarrow> outputs c = [] \<or> outputs c ! (length (outputs c) - 1) \<noteq> None"
  by (auto simp: no_trailing_gap_def last_conv_nth)

lemma no_trailing_gap_update:
  assumes "no_trailing_gap c" and "i < length (outputs c)"
  shows "no_trailing_gap (c\<lparr>outputs := (outputs c)[i := Some e]\<rparr>)"
proof (cases "i = length (outputs c) - 1")
  case True
  then show ?thesis
    using assms(2) by (simp add: no_trailing_gap_nth)
next
  case False
  then show ?thesis
    using assms by (simp add: no_trailing_gap_nth)
qed

lemma no_trailing_gap_outputs:
  "outputs c' = outputs c \<Longrightarrow> no_trailing_gap c' = no_trailing_gap c"
  by (simp add: no_trailing_gap_def)

lemma no_trailing_gap_add:
  assumes "no_trailing_gap c" and "add c i e = Inr c'"
  shows "no_trailing_gap c'"
proof -
  let ?os = "outputs c @ replicate (Suc i - length (outputs c)) None"
  have c': "outputs c' = ?os[i := Some e]"
    using assms(2) by (auto simp: add_def add_pad_eq Let_def split: if_splits)
  have len: "length (outputs c') = max (length (outputs c)) (Suc i)"
    unfolding c' by auto
  show ?thesis
  proof (cases "i < length (outputs c)")
    case True
    then have "outputs c' = outputs (c\<lparr>outputs := (outputs c)[i := Some e]\<rparr>)"
      unfolding c' by simp
    then show ?thesis
      using no_trailing_gap_update[OF assms(1) True, of e] no_trailing_gap_outputs by blast
  next
    case False
    then have "outputs c' ! (length (outputs c') - 1) = Some e"
      unfolding len unfolding c' by (simp add: max_def)
    then show ?thesis
      using len by (auto simp: no_trailing_gap_nth)
  qed
qed

lemma no_trailing_gap_spend:
  assumes "no_trailing_gap c"
  shows "no_trailing_gap (snd (spend c i))"
proof (cases "isUnspent c i")
  case True
  then obtain e where e: "get c i = Some e" "\<not> spent e"
    by (auto simp: isUnspent_iff)
  then have i: "i < length (outputs c)"
    by (simp add: get_Some_iff)
  show ?thesis
    using no_trailing_gap_update[OF assms i] by (simp add: spend_unspent[OF e])
next
  case False
  then show ?thesis
    using assms by (simp add: spend_noop)
qed

lemma no_trailing_gap_remove:
  assumes "no_trailing_gap c"
  shows "no_trailing_gap (snd (remove c i))"
  using assms by (auto simp: remove_def no_trailing_gap_cleanup split: option.splits)

text \<open>
  C6, as the code has it. After \<open>add\<close>, \<open>addOutput\<close>, \<open>addCoin\<close>, \<open>spend\<close>, \<open>remove\<close> or \<open>cleanup\<close>
  on a record without a trailing gap, \<open>outputs\<close> has no trailing gap: its last element,
  when there is one, is an entry. \<open>outputs.length == length()\<close> holds afterwards exactly
  when \<open>outputs\<close> is empty or that last entry is not marked spent, hence whenever no entry
  of the record is marked spent.
\<close>

theorem mutation_invariant:
  assumes "no_trailing_gap c" and "mutate isUnspendable m c = Inr c'"
  shows "no_trailing_gap c' \<and>
         ((length (outputs c') = length_c c') = (outputs c' = [] \<or> last_unspent c')) \<and>
         ((\<forall>e. Some e \<in> set (outputs c') \<longrightarrow> \<not> spent e) \<longrightarrow> length (outputs c') = length_c c')"
proof -
  have g: "no_trailing_gap c'"
  proof (cases m)
    case (Add i e)
    then show ?thesis
      using assms no_trailing_gap_add by simp
  next
    case (AddOutput i out)
    then show ?thesis
      using assms no_trailing_gap_add[of c i "fromOutput out" c']
      by (simp add: addOutput_def split: if_splits)
  next
    case (AddCoin coin)
    then show ?thesis
      using assms no_trailing_gap_add[of c "coin_index coin" "fromCoin coin" c']
      by (simp add: addCoin_def split: if_splits)
  next
    case (Spend i)
    then show ?thesis
      using assms no_trailing_gap_spend[of c i] by auto
  next
    case (Remove i)
    then show ?thesis
      using assms no_trailing_gap_remove[of c i] by auto
  next
    case Cleanup
    then show ?thesis
      using assms no_trailing_gap_cleanup[of c] by auto
  qed
  have "last_unspent c'" if "outputs c' \<noteq> []" and "\<forall>e. Some e \<in> set (outputs c') \<longrightarrow> \<not> spent e"
  proof -
    from g that(1) obtain e where e: "last (outputs c') = Some e"
      by (auto simp: no_trailing_gap_def)
    then have "Some e \<in> set (outputs c')"
      using that(1) last_in_set by metis
    then show ?thesis
      using that e by (simp add: last_unspent_def)
  qed
  then show ?thesis
    using g length_c_full[of c'] by blast
qed

theorem mutation_invariant_witness:
  "no_trailing_gap coins_one \<and>
   mutate (\<lambda>s. False) (Spend 0) coins_one = Inr (snd (spend coins_one 0)) \<and>
   no_trailing_gap (snd (spend coins_one 0)) \<and>
   \<not> last_unspent (snd (spend coins_one 0)) \<and>
   length (outputs (snd (spend coins_one 0))) \<noteq> length_c (snd (spend coins_one 0))"
proof -
  have g: "no_trailing_gap coins_one"
    by (simp add: no_trailing_gap_def coins_one_def)
  have m: "mutate (\<lambda>s. False) (Spend 0) coins_one = Inr (snd (spend coins_one 0))"
    by simp
  have s: "outputs (snd (spend coins_one 0)) = [Some (fromOutput out51\<lparr>spent := True\<rparr>)]"
    by (simp add: spend_def get_def coins_one_def fromOutput_def new_CoinEntry_def)
  have l: "\<not> last_unspent (snd (spend coins_one 0))"
    by (simp add: last_unspent_def s)
  have n: "outputs (snd (spend coins_one 0)) \<noteq> []"
    by (simp add: s)
  show ?thesis
    using mutation_invariant[OF g m] g m l n by blast
qed

text \<open>
  C6 as stated fails: \<open>spend\<close> does not trim. A record with one unspent output satisfies
  the invariant; after \<open>spend(0)\<close>, \<open>outputs.length\<close> is 1, \<open>length()\<close> is 0, and the last
  element is marked spent.
\<close>

theorem spend_breaks_length_invariant:
  "length (outputs coins_one) = length_c coins_one \<and> isUnspent coins_one 0 \<and>
   length (outputs (snd (spend coins_one 0))) = 1 \<and>
   length_c (snd (spend coins_one 0)) = 0 \<and>
   \<not> isUnspent (snd (spend coins_one 0)) 0"
  by (simp add: length_c_def spend_def get_def isUnspent_def coins_one_def fromOutput_def
      new_CoinEntry_def)

section \<open>The spent field written by \<open>toRaw\<close>\<close>

lemma bit_push_1_byte: "bit (push_bit j 1 :: byte) k \<longleftrightarrow> k = j \<and> j < 8"
  by (auto simp: bit_simps)

lemma bit_exp_byte: "bit (2 ^ j :: byte) k \<longleftrightarrow> k = j \<and> j < 8"
  by (auto simp: bit_simps)

lemma spent_byte_bit:
  "bit (spent_byte c len i j ch) k \<longleftrightarrow>
     bit ch k \<or> (j \<le> k \<and> k < 8 \<and> 2 + i * 8 + k < len \<and> isUnspent c (2 + i * 8 + k))"
proof (induction c len i j ch rule: spent_byte.induct)
  case (1 c len i j ch)
  show ?case
  proof (cases "j < 8 \<and> 2 + i * 8 + j < len")
    case True
    let ?ch = "if isUnspent c (2 + i * 8 + j) then ch OR push_bit j 1 else ch"
    have step: "spent_byte c len i j ch = spent_byte c len i (j + 1) ?ch"
      using True by (subst spent_byte.simps) simp
    have "bit ?ch k \<longleftrightarrow> bit ch k \<or> (k = j \<and> isUnspent c (2 + i * 8 + j))"
      using True by (auto simp: bit_or_iff bit_push_1_byte bit_exp_byte)
    moreover have "j \<le> k \<longleftrightarrow> k = j \<or> j + 1 \<le> k"
      by auto
    ultimately show ?thesis
      unfolding step using "1.IH"[OF True] True by auto
  next
    case False
    then have "spent_byte c len i j ch = ch"
      by (subst spent_byte.simps) auto
    moreover have "\<not> (j \<le> k \<and> k < 8 \<and> 2 + i * 8 + k < len)"
      using False by auto
    ultimately show ?thesis by auto
  qed
qed

lemma spent_field_length: "length (spent_field c len sz i) = sz - i"
proof (induction c len sz i rule: spent_field.induct)
  case (1 c len sz i)
  then show ?case
    by (subst spent_field.simps) auto
qed

lemma spent_field_nth:
  "i + k < sz \<Longrightarrow> spent_field c len sz i ! k = spent_byte c len (i + k) 0 0"
proof (induction c len sz i arbitrary: k rule: spent_field.induct)
  case (1 c len sz i)
  from "1.prems" have i: "i < sz" by simp
  show ?case
  proof (cases k)
    case 0
    then show ?thesis
      using i by (subst spent_field.simps) simp
  next
    case (Suc k')
    then show ?thesis
      using i "1.IH"[OF i, of k'] "1.prems" by (subst spent_field.simps) simp
  qed
qed

lemma length_loop_above: "k < n \<Longrightarrow> isUnspent c k \<Longrightarrow> k < length_loop c n"
proof (induction n)
  case 0
  then show ?case by simp
next
  case (Suc n)
  then show ?case
    by (cases "k = n") auto
qed

lemma length_loop_last: "length_loop c n = Suc k \<Longrightarrow> isUnspent c k"
  by (induction n) (auto split: if_splits)

lemma isUnspent_lt_length: "isUnspent c k \<Longrightarrow> k < length (outputs c)"
  by (auto simp: isUnspent_def split: if_splits)

lemma isUnspent_lt_length_c: "isUnspent c k \<Longrightarrow> k < length_c c"
  unfolding length_c_def by (rule length_loop_above) (auto dest: isUnspent_lt_length)

lemma length_c_le: "length_c c \<le> length (outputs c)"
  unfolding length_c_def by (rule length_loop_le)

lemma length_c_last: "length_c c \<noteq> 0 \<Longrightarrow> isUnspent c (length_c c - 1)"
proof -
  assume "length_c c \<noteq> 0"
  then obtain k where k: "length_c c = Suc k"
    by (cases "length_c c") auto
  then have "isUnspent c k"
    unfolding length_c_def by (rule length_loop_last)
  with k show ?thesis by simp
qed

lemma spent_field_bit:
  assumes "i < sz" and "j < 8"
  shows "bit (spent_field c (length_c c) sz 0 ! i) j \<longleftrightarrow> isUnspent c (2 + 8 * i + j)"
proof -
  have "spent_field c (length_c c) sz 0 ! i = spent_byte c (length_c c) i 0 0"
    using spent_field_nth[of 0 i sz c "length_c c"] assms(1) by simp
  then show ?thesis
    using assms(2) isUnspent_lt_length_c[of c "2 + i * 8 + j"]
    by (auto simp: spent_byte_bit mult.commute)
qed

section \<open>The bytes written by \<open>toRaw\<close>\<close>

lemma live_nth_js: "live (nth_js (outputs c) i) = isUnspent c i"
  by (simp add: live_def nth_js_def isUnspent_def)

lemma wf_coins_nth_js:
  "wf_coins K c \<Longrightarrow> nth_js (outputs c) i = Some e \<Longrightarrow> wf_entry K e"
  by (auto simp: wf_coins_def nth_js_def split: if_splits dest: nth_mem)

lemma toWriter_wf:
  "wf_entry K e \<Longrightarrow> \<exists>bs. toWriter K e = Inr bs"
  by (auto simp: wf_entry_def toWriter_def split: option.splits)

lemma slot_bytes_wf:
  "wf_entry K e \<Longrightarrow> \<not> spent e \<Longrightarrow> toWriter K e = Inr (slot_bytes K (Some e))"
  using toWriter_wf[of K e] by (auto simp: slot_bytes_def)

lemma slot_bytes_not_live: "\<not> live s \<Longrightarrow> slot_bytes K s = []"
  by (auto simp: live_def slot_bytes_def split: option.splits)

lemma slot_bytes_None: "slot_bytes K None = []"
  by (simp add: slot_bytes_def)

lemma slot_bytes_spent: "spent e \<Longrightarrow> slot_bytes K (Some e) = []"
  by (simp add: slot_bytes_def)

lemma write_outputs_eq:
  assumes "wf_coins K c"
  shows "write_outputs K c len i = Inr (concat (map (slot_bytes K) (map (nth_js (outputs c)) [i..<len])))"
  using assms
proof (induction K c len i rule: write_outputs.induct)
  case (1 K c len i)
  show ?case
  proof (cases "i < len")
    case False
    then show ?thesis
      by (subst write_outputs.simps) simp
  next
    case True
    then have upt: "[i..<len] = i # [i + 1..<len]"
      by (simp add: upt_conv_Cons)
    show ?thesis
    proof (cases "nth_js (outputs c) i")
      case None
      then show ?thesis
        using True "1.IH"(1)[OF True None] "1.prems"
        by (subst write_outputs.simps) (simp add: upt slot_bytes_None)
    next
      case (Some e)
      show ?thesis
      proof (cases "spent e")
        case True
        then show ?thesis
          using \<open>i < len\<close> "1.IH"(2)[OF \<open>i < len\<close> Some True] "1.prems" Some
          by (subst write_outputs.simps) (simp add: upt slot_bytes_spent)
      next
        case False
        have w: "toWriter K e = Inr (slot_bytes K (Some e))"
          using wf_coins_nth_js[OF "1.prems" Some] False by (rule slot_bytes_wf)
        show ?thesis
          using \<open>i < len\<close> "1.IH"(3)[OF \<open>i < len\<close> Some False w] "1.prems" Some False w
          by (subst write_outputs.simps) (simp add: upt)
      qed
    qed
  qed
qed

lemma write_outputs_slots:
  "wf_coins K c \<Longrightarrow> write_outputs K c len 0 = Inr (concat (map (slot_bytes K) (slots c len)))"
  by (simp add: write_outputs_eq slots_def)

lemma getSize_loop_ok:
  assumes "wf_coins K c"
  shows "\<exists>n. getSize_loop K c len i tot = Inr n"
  using assms
proof (induction K c len i tot rule: getSize_loop.induct)
  case (1 K c len i tot)
  show ?case
  proof (cases "i < len")
    case False
    then show ?thesis
      by (subst getSize_loop.simps) simp
  next
    case True
    show ?thesis
    proof (cases "nth_js (outputs c) i")
      case None
      then show ?thesis
        using True "1.IH"(1)[OF True None] "1.prems"
        by (subst getSize_loop.simps) simp
    next
      case (Some e)
      show ?thesis
      proof (cases "spent e")
        case True
        then show ?thesis
          using \<open>i < len\<close> "1.IH"(2)[OF \<open>i < len\<close> Some True] "1.prems" Some
          by (subst getSize_loop.simps) simp
      next
        case False
        have "wf_entry K e"
          using wf_coins_nth_js[OF "1.prems" Some] .
        then obtain n where n: "getSize_e K e = Inr n"
          by (auto simp: wf_entry_def getSize_e_def split: option.splits)
        show ?thesis
          using \<open>i < len\<close> "1.IH"(3)[OF \<open>i < len\<close> Some False n] "1.prems" Some False n
          by (subst getSize_loop.simps) simp
      qed
    qed
  qed
qed

lemma header_ok:
  assumes "length_c c \<noteq> 0"
  shows "header c (length_c c) ((length_c c + 5) div 8) =
           Inr (8 * (if isUnspent c 0 \<or> isUnspent c 1 then (length_c c + 5) div 8
                     else (length_c c + 5) div 8 - 1)
                + low_bits (coinbase c) (isUnspent c 0) (isUnspent c 1))"
proof -
  have "isUnspent c (length_c c - 1)"
    using assms by (rule length_c_last)
  then have "isUnspent c 0 \<or> isUnspent c 1 \<or> 3 \<le> length_c c"
    by (cases "length_c c = 1"; cases "length_c c = 2") (use assms in auto)
  then have "isUnspent c 0 \<or> isUnspent c 1 \<or> (length_c c + 5) div 8 \<noteq> 0"
    by auto
  then show ?thesis
    using assms unfolding header_Inr by simp
qed

lemma toRaw_eq:
  assumes "wf_coins K c" and "length_c c \<noteq> 0"
  shows "toRaw K c =
           Inr (writeVarint (version c) @ writeU32 (height c)
                @ writeVarint (8 * (if isUnspent c 0 \<or> isUnspent c 1 then (length_c c + 5) div 8
                                    else (length_c c + 5) div 8 - 1)
                               + low_bits (coinbase c) (isUnspent c 0) (isUnspent c 1))
                @ spent_field c (length_c c) ((length_c c + 5) div 8) 0
                @ concat (map (slot_bytes K) (slots c (length_c c))))"
proof -
  obtain n where "getSize_loop K c (length_c c) 0
      (sizeVarint (version c) + 4 + sizeVarint (8 * (if isUnspent c 0 \<or> isUnspent c 1 then (length_c c + 5) div 8
                                    else (length_c c + 5) div 8 - 1)
                               + low_bits (coinbase c) (isUnspent c 0) (isUnspent c 1)) + (length_c c + 5) div 8) = Inr n"
    using getSize_loop_ok[OF assms(1)] by blast
  then show ?thesis
    by (simp add: toRaw_def Let_def header_ok[OF assms(2)] getSize_def write_outputs_slots[OF assms(1)])
qed

section \<open>The slots read by \<open>fromRaw\<close>\<close>

lemma read_slots_append:
  "read_slots K data pos (bs @ bs') =
     (case read_slots K data pos bs of
        Inl e \<Rightarrow> Inl e
      | Inr (es, p) \<Rightarrow>
          (case read_slots K data p bs' of
             Inl e \<Rightarrow> Inl e
           | Inr (es', p') \<Rightarrow> Inr (es @ es', p')))"
  by (induction bs arbitrary: pos) (auto split: sum.splits prod.splits)

lemma fromRaw_bits_eq:
  "fromRaw_bits K data ch j (os, pos) =
     (case read_slots K data pos (map (\<lambda>j. ch AND push_bit j 1 \<noteq> 0) [j..<8]) of
        Inl e \<Rightarrow> Inl e
      | Inr (es, p) \<Rightarrow> Inr (os @ es, p))"
proof (induction K data ch j "(os, pos)" arbitrary: os pos rule: fromRaw_bits.induct)
  case (1 K data ch j os pos)
  show ?case
  proof (cases "j < 8")
    case False
    then show ?thesis
      by (subst fromRaw_bits.simps) simp
  next
    case True
    then have upt: "[j..<8] = j # [j + 1..<8]"
      by (simp add: upt_conv_Cons)
    show ?thesis
    proof (cases "ch AND push_bit j 1 = 0")
      case z: True
      show ?thesis
        using True z "1.hyps"(1)[OF True z]
        by (subst fromRaw_bits.simps) (simp add: upt split: sum.splits prod.splits)
    next
      case nz: False
      show ?thesis
      proof (cases "fromReader K data pos")
        case (Inl e)
        then show ?thesis
          using True nz by (subst fromRaw_bits.simps) (simp add: upt)
      next
        case (Inr r)
        obtain entry pos' where r: "r = (entry, pos')"
          by (cases r)
        show ?thesis
          using True nz Inr r "1.hyps"(2)[OF True nz Inr[unfolded r] refl]
          by (subst fromRaw_bits.simps) (simp add: upt split: sum.splits prod.splits)
      qed
    qed
  qed
qed

lemma fromRaw_bits_byte:
  "fromRaw_bits K data ch 0 (os, pos) =
     (case read_slots K data pos (byte_bits ch) of
        Inl e \<Rightarrow> Inl e
      | Inr (es, p) \<Rightarrow> Inr (os @ es, p))"
  by (simp add: fromRaw_bits_eq byte_bits_def)

lemma field_bits_step:
  "i < sz \<Longrightarrow> field_bits data offs (sz - i) =
     byte_bits (byte_at data offs) @ field_bits data (offs + 1) (sz - (i + 1))"
proof -
  assume "i < sz"
  then obtain m where m: "sz - i = Suc m"
    by (cases "sz - i") auto
  then have m': "sz - (i + 1) = m"
    by simp
  have "map (\<lambda>k. byte_bits (byte_at data (offs + k))) [0..<Suc m] =
          byte_bits (byte_at data offs) # map (\<lambda>k. byte_bits (byte_at data (offs + 1 + k))) [0..<m]"
    by (simp add: upt_conv_Cons map_Suc_upt[symmetric] del: upt_Suc)
  then show ?thesis
    unfolding field_bits_def m m' by simp
qed

lemma fromRaw_field_eq:
  "fromRaw_field K data sz i offs (os, pos) =
     (case read_slots K data pos (field_bits data offs (sz - i)) of
        Inl e \<Rightarrow> Inl e
      | Inr (es, p) \<Rightarrow> Inr (os @ es, p))"
proof (induction K data sz i offs "(os, pos)" arbitrary: os pos rule: fromRaw_field.induct)
  case (1 K data sz i offs os pos)
  show ?case
  proof (cases "i < sz")
    case False
    then show ?thesis
      by (subst fromRaw_field.simps) (simp add: field_bits_def)
  next
    case True
    show ?thesis
    proof (cases "read_slots K data pos (byte_bits (byte_at data offs))")
      case (Inl e)
      then show ?thesis
        using True
        by (subst fromRaw_field.simps)
           (simp add: fromRaw_bits_byte field_bits_step[OF True] read_slots_append)
    next
      case (Inr r)
      obtain es p where r: "r = (es, p)"
        by (cases r)
      have b: "fromRaw_bits K data (byte_at data offs) 0 (os, pos) = Inr (os @ es, p)"
        by (simp add: fromRaw_bits_byte Inr r)
      show ?thesis
        using True Inr r "1.hyps"[OF True b]
        by (subst fromRaw_field.simps)
           (simp add: b field_bits_step[OF True] read_slots_append split: sum.splits prod.splits)
    qed
  qed
qed

lemma fromRaw_eq:
  "fromRaw K c data hsh =
     (case read_headers data of
        Inl e \<Rightarrow> Inl e
      | Inr (ver, h, code, offs) \<Rightarrow>
          (case seek data offs (recalc_size code) of
             Inl e \<Rightarrow> Inl e
           | Inr p \<Rightarrow>
               (case read_slots K data p
                       ((code AND 2 \<noteq> 0) # (code AND 4 \<noteq> 0)
                        # field_bits data offs (recalc_size code)) of
                  Inl e \<Rightarrow> Inl e
                | Inr (es, p') \<Rightarrow>
                    Inr (cleanup (c\<lparr>hash := hsh, version := ver, height := int h,
                                    coinbase := (code AND 1 \<noteq> 0),
                                    outputs := outputs c @ es\<rparr>)))))"
  by (simp add: fromRaw_def fromRaw_field_eq Let_def
      split: sum.splits prod.splits option.splits)

lemma read_slots_shape:
  "read_slots K data pos bs = Inr (es, p) \<Longrightarrow>
     length es = length bs \<and>
     (\<forall>k < length bs. if bs ! k
        then (\<exists>e. es ! k = Some e \<and> raw e = Some data \<and> output_e e = None \<and> \<not> spent e \<and>
                  skip_at K data (offset e) = Inr (size_e e))
        else es ! k = None)"
proof (induction bs arbitrary: pos es p)
  case Nil
  then show ?case by simp
next
  case (Cons b bs)
  show ?case
  proof (cases b)
    case False
    with Cons.prems obtain es' where es': "read_slots K data pos bs = Inr (es', p)" "es = None # es'"
      by (auto split: sum.splits prod.splits)
    from Cons.IH[OF es'(1)] show ?thesis
      using False es'(2) by (auto simp: nth_Cons split: nat.splits)
  next
    case True
    with Cons.prems obtain entry pos' es' where
      r: "fromReader K data pos = Inr (entry, pos')"
         "read_slots K data pos' bs = Inr (es', p)" "es = Some entry # es'"
      by (auto split: sum.splits prod.splits)
    from r(1) have e: "raw entry = Some data \<and> output_e entry = None \<and> \<not> spent entry \<and>
        skip_at K data (offset entry) = Inr (size_e entry)"
      by (auto simp: fromReader_def new_CoinEntry_def split: sum.splits)
    from Cons.IH[OF r(2)] show ?thesis
      using True r(3) e by (auto simp: nth_Cons split: nat.splits)
  qed
qed

section \<open>The layout of the spent field\<close>

lemma byte_bits_nth: "j < 8 \<Longrightarrow> byte_bits ch ! j = bit ch j"
  by (simp add: byte_bits_def bit_iff_and_push_bit_not_eq_0 del: push_bit_of_1)

lemma length_byte_bits: "length (byte_bits ch) = 8"
  by (simp add: byte_bits_def)

lemma field_bits_Suc:
  "field_bits data offs (Suc sz) = field_bits data offs sz @ byte_bits (byte_at data (offs + sz))"
  by (simp add: field_bits_def)

lemma length_field_bits: "length (field_bits data offs sz) = 8 * sz"
  by (induction sz) (simp_all add: field_bits_Suc length_byte_bits, simp add: field_bits_def)

lemma field_bits_nth:
  "i < sz \<Longrightarrow> j < 8 \<Longrightarrow> field_bits data offs sz ! (8 * i + j) = bit (byte_at data (offs + i)) j"
proof (induction sz)
  case 0
  then show ?case by simp
next
  case (Suc sz)
  show ?case
  proof (cases "i < sz")
    case True
    then have "8 * i + j < 8 * sz"
      using Suc.prems(2) by simp
    then show ?thesis
      using Suc.IH[OF True Suc.prems(2)]
      by (simp add: field_bits_Suc nth_append length_field_bits)
  next
    case False
    then have i: "i = sz"
      using Suc.prems(1) by simp
    show ?thesis
      using Suc.prems(2) by (simp add: field_bits_Suc nth_append length_field_bits i byte_bits_nth)
  qed
qed

lemma isUnspent_outputs:
  "outputs c' = outputs c \<Longrightarrow> isUnspent c' i = isUnspent c i"
  by (simp add: isUnspent_def)

lemma fromRaw_new_bits:
  assumes "read_headers data = Inr (ver, h, code, offs)"
    and "Coins_fromRaw K data hsh = Inr c'"
  shows "offs + recalc_size code \<le> length data"
    and "isUnspent c' 0 = (code AND 2 \<noteq> 0)"
    and "isUnspent c' 1 = (code AND 4 \<noteq> 0)"
    and "i < recalc_size code \<Longrightarrow> j < 8 \<Longrightarrow>
           isUnspent c' (2 + 8 * i + j) = bit (byte_at data (offs + i)) j"
    and "2 + 8 * recalc_size code \<le> k \<Longrightarrow> \<not> isUnspent c' k"
    and "version c' = ver \<and> height c' = int h \<and> coinbase c' = (code AND 1 \<noteq> 0) \<and> hash c' = hsh"
proof -
  let ?bits = "(code AND 2 \<noteq> 0) # (code AND 4 \<noteq> 0) # field_bits data offs (recalc_size code)"
  have fr: "fromRaw K new_Coins data hsh = Inr c'"
    using assms(2) by (simp add: Coins_fromRaw_def)
  from fr have "\<exists>p es p'. seek data offs (recalc_size code) = Inr p \<and>
      read_slots K data p ?bits = Inr (es, p') \<and>
      c' = cleanup (new_Coins\<lparr>hash := hsh, version := ver, height := int h,
                                coinbase := (code AND 1 \<noteq> 0), outputs := es\<rparr>)"
    by (auto simp add: fromRaw_eq assms(1) new_Coins_def simp del: read_slots.simps
        split: sum.splits prod.splits)
  then obtain p es p' where
    seek: "seek data offs (recalc_size code) = Inr p" and
    rd: "read_slots K data p ?bits = Inr (es, p')" and
    c': "c' = cleanup (new_Coins\<lparr>hash := hsh, version := ver, height := int h,
                                  coinbase := (code AND 1 \<noteq> 0), outputs := es\<rparr>)"
    by blast
  let ?c = "new_Coins\<lparr>hash := hsh, version := ver, height := int h,
                       coinbase := (code AND 1 \<noteq> 0), outputs := es\<rparr>"
  from seek show "offs + recalc_size code \<le> length data"
    by (simp add: seek_def split: if_splits)
  show "version c' = ver \<and> height c' = int h \<and> coinbase c' = (code AND 1 \<noteq> 0) \<and> hash c' = hsh"
    by (simp add: c' cleanup_def)
  note shape = read_slots_shape[OF rd]
  have len: "length es = 2 + 8 * recalc_size code"
    using shape by (simp add: length_field_bits)
  have u: "isUnspent c' k = (?bits ! k)" if "k < length ?bits" for k
  proof -
    have "isUnspent c' k = isUnspent ?c k"
      by (simp add: c' isUnspent_cleanup)
    also have "\<dots> = (?bits ! k)"
      using shape that len by (auto simp: isUnspent_def split: if_splits)
    finally show ?thesis .
  qed
  show "isUnspent c' 0 = (code AND 2 \<noteq> 0)"
    using u[of 0] by simp
  show "isUnspent c' 1 = (code AND 4 \<noteq> 0)"
    using u[of 1] by simp
  show "isUnspent c' (2 + 8 * i + j) = bit (byte_at data (offs + i)) j"
    if "i < recalc_size code" "j < 8"
  proof -
    have "2 + 8 * i + j < length ?bits"
      using that by (simp add: length_field_bits)
    then have "isUnspent c' (2 + 8 * i + j) = (?bits ! (2 + 8 * i + j))"
      by (rule u)
    also have "\<dots> = field_bits data offs (recalc_size code) ! (8 * i + j)"
      by simp
    finally show ?thesis
      using that by (simp add: field_bits_nth)
  qed
  show "\<not> isUnspent c' k" if "2 + 8 * recalc_size code \<le> k"
  proof -
    have "isUnspent c' k = isUnspent ?c k"
      by (simp add: c' isUnspent_cleanup)
    then show ?thesis
      using that len by (simp add: isUnspent_def)
  qed
qed

lemma spent_byte_eqI:
  "(\<And>k. k < 8 \<Longrightarrow> bit (a::byte) k = bit b k) \<Longrightarrow> a = b"
  by (rule bit_eqI) (simp add: possible_bit_word)

lemma nine_length_c:
  assumes "length (outputs c) = 9" and "\<And>k. k < 9 \<Longrightarrow> isUnspent c k = (k = 8)"
  shows "length_c c = 9"
proof -
  have "isUnspent c 8"
    using assms(2) by simp
  then have "8 < length_c c"
    by (rule isUnspent_lt_length_c)
  then show ?thesis
    using length_c_le[of c] assms(1) by simp
qed

lemma nine_header:
  assumes "length (outputs c) = 9" and "\<And>k. k < 9 \<Longrightarrow> isUnspent c k = (k = 8)"
  shows "header c 9 1 = Inr (if coinbase c then 1 else 0)"
proof -
  have "\<not> isUnspent c 0" and "\<not> isUnspent c 1"
    using assms(2) by simp_all
  then show ?thesis
    unfolding header_Inr by (simp add: low_bits_def)
qed

lemma nine_spent_field:
  assumes "length (outputs c) = 9" and "\<And>k. k < 9 \<Longrightarrow> isUnspent c k = (k = 8)"
  shows "spent_field c 9 1 0 = [0b01000000]"
proof -
  have len: "length_c c = 9"
    using assms by (rule nine_length_c)
  have "spent_field c 9 1 0 ! 0 = 0b01000000"
  proof (rule spent_byte_eqI)
    fix k :: nat assume k: "k < 8"
    have "bit (spent_field c (length_c c) 1 0 ! 0) k = isUnspent c (2 + 8 * 0 + k)"
      using k by (intro spent_field_bit) simp_all
    also have "\<dots> = (k = 6)"
    proof -
      have "2 + k < 9 \<Longrightarrow> isUnspent c (2 + k) = (2 + k = 8)"
        using assms(2) by blast
      moreover have "\<not> 2 + k < 9 \<Longrightarrow> \<not> isUnspent c (2 + k)"
        using assms(1) isUnspent_lt_length[of c "2 + k"] by auto
      ultimately show ?thesis
        by (cases "2 + k < 9") auto
    qed
    also have "\<dots> = bit (0b01000000 :: byte) k"
    proof -
      have "(0b01000000 :: byte) = 2 ^ 6" by simp
      then show ?thesis
        by (simp only: bit_exp_byte) auto
    qed
    finally show "bit (spent_field c 9 1 0 ! 0) k = bit (0b01000000 :: byte) k"
      by (simp add: len)
  qed
  moreover have "length (spent_field c 9 1 0) = 1"
    by (simp add: spent_field_length)
  ultimately show ?thesis
    by (cases "spent_field c 9 1 0") auto
qed

text \<open>
  C7. The extended spent field describes the outputs from index 2 on, least significant
  bit first, bytes in ascending order. On the write path \<open>toRaw\<close> emits, between the
  header code and the compressed outputs, \<open>S\<close> bytes whose bit \<open>j\<close> of byte \<open>i\<close> is set
  exactly when output \<open>2 + 8 i + j\<close> is unspent. On the read path the record \<open>fromRaw\<close>
  builds has output \<open>2 + 8 i + j\<close> unspent exactly when bit \<open>j\<close> of byte \<open>i\<close> after the header
  is set; it has no unspent output from \<open>2 + 8 S\<close> on. A record of nine slots whose only
  unspent output is at index 8 has \<open>length()\<close> 9, one byte of spent field, \<open>0b01000000\<close>, and
  header code 0 if it is not a coinbase, 1 if it is: \<open>header\<close> adds the coinbase flag to the
  code whatever the outputs are.
\<close>

theorem spent_field_layout:
  "length (spent_field c (length_c c) sz 0) = sz \<and>
   (\<forall>i < sz. \<forall>j < (8::nat). bit (spent_field c (length_c c) sz 0 ! i) j = isUnspent c (2 + 8 * i + j)) \<and>
   (wf_coins K c \<and> length_c c \<noteq> 0 \<longrightarrow>
      (\<exists>code. header c (length_c c) ((length_c c + 5) div 8) = Inr code \<and>
         toRaw K c = Inr (writeVarint (version c) @ writeU32 (height c) @ writeVarint code
                          @ spent_field c (length_c c) ((length_c c + 5) div 8) 0
                          @ concat (map (slot_bytes K) (slots c (length_c c)))))) \<and>
   (read_headers data = Inr (ver, h, code, offs) \<and> Coins_fromRaw K data hsh = Inr c' \<longrightarrow>
      offs + recalc_size code \<le> length data \<and>
      (\<forall>i < recalc_size code. \<forall>j < (8::nat).
         isUnspent c' (2 + 8 * i + j) = bit (data ! (offs + i)) j) \<and>
      (\<forall>k \<ge> 2 + 8 * recalc_size code. \<not> isUnspent c' k)) \<and>
   (length (outputs c) = 9 \<and> (\<forall>k < (9::nat). isUnspent c k = (k = 8)) \<longrightarrow>
      length_c c = 9 \<and> (length_c c + 5) div 8 = 1 \<and>
      header c 9 1 = Inr (if coinbase c then 1 else 0) \<and>
      spent_field c 9 1 0 = [0b01000000])"
proof (intro conjI impI allI)
  show "length (spent_field c (length_c c) sz 0) = sz"
    by (simp add: spent_field_length)
next
  fix i j :: nat assume "i < sz" "j < 8"
  then show "bit (spent_field c (length_c c) sz 0 ! i) j = isUnspent c (2 + 8 * i + j)"
    by (rule spent_field_bit)
next
  assume "wf_coins K c \<and> length_c c \<noteq> 0"
  then show "\<exists>code. header c (length_c c) ((length_c c + 5) div 8) = Inr code \<and>
         toRaw K c = Inr (writeVarint (version c) @ writeU32 (height c) @ writeVarint code
                          @ spent_field c (length_c c) ((length_c c + 5) div 8) 0
                          @ concat (map (slot_bytes K) (slots c (length_c c))))"
    using header_ok[of c] toRaw_eq[of K c] by simp
next
  assume a: "read_headers data = Inr (ver, h, code, offs) \<and> Coins_fromRaw K data hsh = Inr c'"
  then show le: "offs + recalc_size code \<le> length data"
    using fromRaw_new_bits(1) by blast
  show "\<not> isUnspent c' k" if "2 + 8 * recalc_size code \<le> k" for k
    using a that fromRaw_new_bits(5) by blast
  show "isUnspent c' (2 + 8 * i + j) = bit (data ! (offs + i)) j"
    if "i < recalc_size code" "j < 8" for i j
  proof -
    have "byte_at data (offs + i) = data ! (offs + i)"
      using le that(1) by (simp add: byte_at_def)
    then show ?thesis
      using a that fromRaw_new_bits(4)[of data ver h code offs K hsh c' i j] by simp
  qed
next
  assume a: "length (outputs c) = 9 \<and> (\<forall>k < (9::nat). isUnspent c k = (k = 8))"
  then have l: "length (outputs c) = 9" and u: "\<And>k. k < 9 \<Longrightarrow> isUnspent c k = (k = 8)"
    by simp_all
  show "length_c c = 9"
    using l u by (rule nine_length_c)
  then show "(length_c c + 5) div 8 = 1"
    by simp
  show "header c 9 1 = Inr (if coinbase c then 1 else 0)"
    using l u by (rule nine_header)
  show "spent_field c 9 1 0 = [0b01000000]"
    using l u by (rule nine_spent_field)
qed

section \<open>Varints and \<open>u32\<close>: what is written is read back\<close>

lemma n7F: "(0x7F::nat) = mask 7"
  by (simp add: mask_eq_exp_minus_1)

lemma w7F: "(0x7F::byte) = mask 7"
  by (simp add: mask_eq_exp_minus_1)

lemma w80: "(0x80::byte) = push_bit 7 1"
  by simp

lemma nat_and_7F: "(n::nat) AND 0x7F = n mod 128"
  unfolding n7F by (simp add: take_bit_eq_mod flip: take_bit_eq_mask)

lemma push7_or: "push_bit 7 (a::nat) OR x = a * 128 + x" if "x < 128"
proof -
  have x: "take_bit 7 x = x" using that by (simp add: take_bit_eq_mod)
  have "push_bit 7 a AND take_bit 7 x = 0"
    by (rule bit_eqI) (auto simp: bit_simps)
  then have "push_bit 7 a + x = push_bit 7 a OR x"
    unfolding x by (rule disjunctive_add_eq_or)
  then show ?thesis by (simp add: push_bit_eq_mult)
qed

lemma bit128: "bit (128 :: 8 word) i = (i = 7)"
proof -
  have e: "(128::8 word) = 2 ^ 7" by simp
  show ?thesis unfolding e bit_exp_iff by (auto simp: possible_bit_word)
qed

lemma bit128n: "bit (128 :: nat) i = (i = 7)"
proof -
  have e: "(128::nat) = 2 ^ 7" by simp
  show ?thesis unfolding e bit_exp_iff by auto
qed

lemma bit128i: "bit (128 :: int) i = (i = 7)"
proof -
  have e: "(128::int) = 2 ^ 7" by simp
  show ?thesis unfolding e bit_exp_iff by auto
qed

lemma byte_low: "unat ((word_of_nat (n AND 0x7F) OR (if cont then 0x80 else 0) :: 8 word) AND 0x7F) = n mod 128"
proof -
  have "(word_of_nat (n AND mask 7) OR (if cont then push_bit 7 1 else 0) :: 8 word) AND mask 7 = word_of_nat (take_bit 7 n)"
    by (rule bit_eqI) (auto simp: bit_simps bit128 bit128n bit128i)
  moreover have "unat (word_of_nat (take_bit 7 n) :: 8 word) = n mod 128"
    by (simp add: unat_of_nat take_bit_eq_mod)
  ultimately show ?thesis unfolding n7F w7F w80 by simp
qed

lemma byte_high: "((word_of_nat (n AND 0x7F) OR (if cont then 0x80 else 0) :: 8 word) AND 0x80 \<noteq> 0) = cont"
proof -
  have "(word_of_nat (n AND mask 7) OR (if cont then push_bit 7 1 else 0) :: 8 word) AND push_bit 7 1 = (if cont then push_bit 7 1 else 0)"
    by (rule bit_eqI) (auto simp: bit_simps bit128 bit128n bit128i)
  then show ?thesis unfolding n7F w7F w80 by simp
qed

lemma vbyte_low: "unat (vbyte n cont AND 0x7F) = n mod 128"
  unfolding vbyte_def by (rule byte_low)

lemma vbyte_high: "(vbyte n cont AND 0x80 \<noteq> 0) = cont"
  unfolding vbyte_def by (rule byte_high)

lemma write_varint_loop_acc:
  "write_varint_loop n cont acc = write_varint_loop n cont [] @ acc"
proof (induction n arbitrary: cont acc rule: less_induct)
  case (less n)
  show ?case
  proof (cases "n \<le> 0x7F")
    case True
    then show ?thesis by (simp add: write_varint_loop.simps[of n] Let_def)
  next
    case False
    have lt: "drop_bit 7 n - 1 < n" using False by (simp add: drop_bit_eq_div)
    have a: "write_varint_loop n cont acc = write_varint_loop (drop_bit 7 n - 1) True (vbyte n cont # acc)" for acc
      using False by (simp add: write_varint_loop.simps[of n cont acc] Let_def vbyte_def)
    show ?thesis
      unfolding a[of acc] a[of "[]"]
      using less.IH[OF lt, of True "vbyte n cont # acc"] less.IH[OF lt, of True "[vbyte n cont]"]
      by simp
  qed
qed

lemma write_varint_loop_small:
  "n \<le> 127 \<Longrightarrow> write_varint_loop n cont [] = [vbyte n cont]"
  by (simp add: write_varint_loop.simps[of n] Let_def vbyte_def)

lemma write_varint_loop_big:
  "\<not> n \<le> 127 \<Longrightarrow> write_varint_loop n cont [] = write_varint_loop (n div 128 - 1) True [] @ [vbyte n cont]"
  using write_varint_loop_acc[of "drop_bit 7 n - 1" True "[vbyte n cont]"]
  by (simp add: write_varint_loop.simps[of n cont "[]"] Let_def vbyte_def drop_bit_eq_div)

lemma read_vbyte:
  "read_varint_loop (vbyte n cont # rest) a =
     (if cont then map_option (\<lambda>(v, k). (v, Suc k)) (read_varint_loop rest (a * 128 + n mod 128 + 1))
      else Some (a * 128 + n mod 128, 1))"
  by (simp add: Let_def vbyte_low vbyte_high push7_or)

lemma read_cont:
  "read_varint_loop (write_varint_loop m True [] @ rest) 0 =
     map_option (\<lambda>(v, k). (v, k + length (write_varint_loop m True []))) (read_varint_loop rest (m + 1))"
proof (induction m arbitrary: rest rule: less_induct)
  case (less m)
  show ?case
  proof (cases "m \<le> 127")
    case True
    then show ?thesis
      by (simp add: write_varint_loop_small read_vbyte option.map_comp comp_def split_def del: read_varint_loop.simps)
  next
    case False
    have lt: "m div 128 - 1 < m" using False by simp
    have e: "(m div 128 - 1 + 1) * 128 + m mod 128 = m" using False by simp
    show ?thesis
      using False less.IH[OF lt, of "vbyte m True # rest"] e
      by (simp add: write_varint_loop_big read_vbyte option.map_comp comp_def split_def del: read_varint_loop.simps)
  qed
qed

lemma read_writeVarint:
  "read_varint_loop (writeVarint n @ rest) 0 = Some (n, length (writeVarint n))"
proof (cases "n \<le> 127")
  case True
  then show ?thesis
    by (simp add: writeVarint_def write_varint_loop_small read_vbyte del: read_varint_loop.simps)
next
  case False
  have e: "(m div 128 - 1 + 1) * 128 + m mod 128 = m" if "\<not> m \<le> 127" for m :: nat using that by simp
  show ?thesis
    using False e[OF False]
    by (simp add: writeVarint_def write_varint_loop_big read_cont read_vbyte del: read_varint_loop.simps)
qed

lemma read_varint_loop_prefix:
  "read_varint_loop bs a = Some (v, k) \<Longrightarrow> k \<le> length bs \<and> read_varint_loop (take k bs @ rest) a = Some (v, k)"
proof (induction bs arbitrary: a v k)
  case Nil
  then show ?case by simp
next
  case (Cons ch bs)
  then show ?case
    by (auto simp: Let_def split: if_splits)
qed

lemma unat_byte_of_int: "unat (word_of_int k :: 8 word) = nat (take_bit 8 k)"
  by (simp add: unsigned_of_int)

lemma u32_split:
  "nat (take_bit 8 h) + push_bit 8 (nat (take_bit 8 (drop_bit 8 h))) + push_bit 16 (nat (take_bit 8 (drop_bit 16 h)))
     + push_bit 24 (nat (take_bit 8 (drop_bit 24 h))) = nat (take_bit 32 (h::int))"
proof -
  have "int (nat (take_bit 8 h) + push_bit 8 (nat (take_bit 8 (drop_bit 8 h))) + push_bit 16 (nat (take_bit 8 (drop_bit 16 h)))
     + push_bit 24 (nat (take_bit 8 (drop_bit 24 h)))) = take_bit 32 h"
  proof -
    have a: "h mod 4294967296 = 256 * (h div 256 mod 16777216) + h mod 256"
      using zmod_zmult2_eq[of 16777216 h 256] by simp
    have d2: "h div 256 div 256 = h div 65536"
      using zdiv_zmult2_eq[of 256 h 256] by simp
    have d3: "h div 65536 div 256 = h div 16777216"
      using zdiv_zmult2_eq[of 256 h 65536] by simp
    have b: "h div 256 mod 16777216 = 256 * (h div 65536 mod 65536) + h div 256 mod 256"
      using zmod_zmult2_eq[of 65536 "h div 256" 256] by (simp add: d2)
    have c: "h div 65536 mod 65536 = 256 * (h div 16777216 mod 256) + h div 65536 mod 256"
      using zmod_zmult2_eq[of 256 "h div 65536" 256] by (simp add: d3)
    show ?thesis
      by (simp add: push_bit_eq_mult take_bit_eq_mod drop_bit_eq_div a b c)
  qed
  then show ?thesis by linarith
qed

lemma readU32_writeU32:
  "drop pos data = writeU32 h @ rest \<Longrightarrow> readU32 data pos = Inr (nat (take_bit 32 h), pos + 4)"
  by (simp add: readU32_def writeU32_def unat_byte_of_int u32_split)

lemma writeU32_wrap: "writeU32 (int (nat (take_bit 32 h))) = writeU32 h"
  unfolding writeU32_def
  apply simp
  apply (intro conjI bit_eqI)
     apply (auto simp: bit_simps)
  done

lemma length_writeU32: "length (writeU32 h) = 4"
  by (simp add: writeU32_def)

lemma readVarint_writeVarint:
  "drop pos data = writeVarint n @ rest \<Longrightarrow>
     readVarint data pos = Inr (n, pos + length (writeVarint n))"
  by (simp add: readVarint_def read_writeVarint)

lemma read_headers_eq:
  "read_headers (writeVarint v @ writeU32 h @ writeVarint code @ rest) =
     Inr (v, nat (take_bit 32 h), code, length (writeVarint v) + 4 + length (writeVarint code))"
proof -
  let ?data = "writeVarint v @ writeU32 h @ writeVarint code @ rest"
  have a: "readVarint ?data 0 = Inr (v, 0 + length (writeVarint v))"
    by (rule readVarint_writeVarint) simp
  have b: "readU32 ?data (length (writeVarint v)) = Inr (nat (take_bit 32 h), length (writeVarint v) + 4)"
    by (rule readU32_writeU32) simp
  have c: "readVarint ?data (length (writeVarint v) + 4) =
             Inr (code, length (writeVarint v) + 4 + length (writeVarint code))"
    by (rule readVarint_writeVarint) (simp add: length_writeU32)
  show ?thesis
    using a b c by (simp add: read_headers_def)
qed

section \<open>Reading back what \<open>toRaw\<close> wrote\<close>

text \<open>
  The bytes of a well-formed live entry: \<open>decompress.skip\<close> passes exactly them, and
  \<open>decompress.output\<close> reads from them the output the entry stands for.
\<close>

lemma ok_size: "compressor_ok K canon \<Longrightarrow> compress_size K out = length (compress_output K out)"
  by (simp add: compressor_ok_def)

lemma ok_skip:
  "compressor_ok K canon \<Longrightarrow>
     decompress_skip K (compress_output K out @ rest) = Some (length (compress_output K out))"
  by (simp add: compressor_ok_def)

lemma ok_output:
  "compressor_ok K canon \<Longrightarrow> decompress_output K (compress_output K out @ rest) = Some (canon out)"
  by (simp add: compressor_ok_def)

lemma ok_prefix:
  "compressor_ok K canon \<Longrightarrow> decompress_skip K bs = Some n \<Longrightarrow>
     n \<le> length bs \<and> decompress_skip K (take n bs @ rest) = Some n \<and>
     decompress_output K (take n bs @ rest) = decompress_output K bs"
  unfolding compressor_ok_def by blast

lemma ok_idem: "compressor_ok K canon \<Longrightarrow> canon (canon out) = canon out"
  by (simp add: compressor_ok_def)

lemma entry_bytes:
  assumes ok: "compressor_ok K canon" and wf: "wf_entry K e" and live: "\<not> spent e"
  shows "decompress_skip K (slot_bytes K (Some e) @ rest) = Some (length (slot_bytes K (Some e)))"
    and "decompress_output K (slot_bytes K (Some e) @ rest) =
           (case raw e of
              None \<Rightarrow> map_option canon (output_e e)
            | Some buf \<Rightarrow> decompress_output K (drop (offset e) buf))"
    and "getSize_e K e = Inr (length (slot_bytes K (Some e)))"
proof -
  have "decompress_skip K (slot_bytes K (Some e) @ rest) = Some (length (slot_bytes K (Some e))) \<and>
        decompress_output K (slot_bytes K (Some e) @ rest) =
           (case raw e of
              None \<Rightarrow> map_option canon (output_e e)
            | Some buf \<Rightarrow> decompress_output K (drop (offset e) buf)) \<and>
        getSize_e K e = Inr (length (slot_bytes K (Some e)))"
  proof (cases "raw e")
    case None
    with wf obtain out where out: "output_e e = Some out"
      by (auto simp: wf_entry_def)
    have "slot_bytes K (Some e) = compress_output K out"
      using live None out by (simp add: slot_bytes_def toWriter_def)
    then show ?thesis
      using None out ok_skip[OF ok] ok_output[OF ok] ok_size[OF ok]
      by (simp add: getSize_e_def)
  next
    case (Some buf)
    with wf have sk: "decompress_skip K (drop (offset e) buf) = Some (size_e e)"
      by (simp add: wf_entry_def)
    have sb: "slot_bytes K (Some e) = take (size_e e) (drop (offset e) buf)"
      using live Some by (simp add: slot_bytes_def toWriter_def slice_def)
    from ok_prefix[OF ok sk, of rest] show ?thesis
      using Some by (simp add: sb getSize_e_def)
  qed
  then show "decompress_skip K (slot_bytes K (Some e) @ rest) = Some (length (slot_bytes K (Some e)))"
    and "decompress_output K (slot_bytes K (Some e) @ rest) =
           (case raw e of
              None \<Rightarrow> map_option canon (output_e e)
            | Some buf \<Rightarrow> decompress_output K (drop (offset e) buf))"
    and "getSize_e K e = Inr (length (slot_bytes K (Some e)))"
    by blast+
qed

lemma live_Some: "live (Some e) = (\<not> spent e)"
  by (simp add: live_def)

lemma live_None: "\<not> live None"
  by (simp add: live_def)

lemma read_slots_loaded:
  assumes ok: "compressor_ok K canon"
    and wf: "\<forall>e. Some e \<in> set ss \<longrightarrow> wf_entry K e"
    and data: "drop pos data = concat (map (slot_bytes K) ss) @ rest"
  shows "read_slots K data pos (map live ss) =
           Inr (loaded K data pos ss, pos + length (concat (map (slot_bytes K) ss)))"
  using wf data
proof (induction ss arbitrary: pos)
  case Nil
  then show ?case by simp
next
  case (Cons s ss)
  have wf': "\<forall>e. Some e \<in> set ss \<longrightarrow> wf_entry K e"
    using Cons.prems(1) by simp
  show ?case
  proof (cases "live s")
    case False
    then have "slot_bytes K s = []"
      by (rule slot_bytes_not_live)
    then show ?thesis
      using False Cons.IH[OF wf', of pos] Cons.prems(2) by simp
  next
    case True
    then obtain e where e: "s = Some e" "\<not> spent e"
      by (cases s) (auto simp: live_def)
    have wfe: "wf_entry K e"
      using Cons.prems(1) e by simp
    let ?bs = "slot_bytes K (Some e)"
    have d: "drop pos data = ?bs @ (concat (map (slot_bytes K) ss) @ rest)"
      using Cons.prems(2) e by simp
    have "decompress_skip K (drop pos data) = Some (length ?bs)"
      unfolding d using ok wfe e(2) by (rule entry_bytes(1))
    then have fr: "fromReader K data pos =
        Inr (new_CoinEntry\<lparr>offset := pos, size_e := length ?bs, raw := Some data\<rparr>, pos + length ?bs)"
      by (simp add: fromReader_def skip_at_def)
    have "drop (pos + length ?bs) data = drop (length ?bs) (drop pos data)"
      by (simp add: add.commute)
    then have d': "drop (pos + length ?bs) data = concat (map (slot_bytes K) ss) @ rest"
      unfolding d by simp
    show ?thesis
      using True e fr Cons.IH[OF wf' d'] by (simp add: add.assoc)
  qed
qed

lemma length_loaded: "length (loaded K data pos ss) = length ss"
  by (induction ss arbitrary: pos) auto

lemma loaded_nth:
  assumes "drop pos data = concat (map (slot_bytes K) ss) @ rest" and "i < length ss"
  shows "if live (ss ! i)
         then \<exists>e r. loaded K data pos ss ! i = Some e \<and> raw e = Some data \<and> output_e e = None \<and>
                \<not> spent e \<and> size_e e = length (slot_bytes K (ss ! i)) \<and>
                drop (offset e) data = slot_bytes K (ss ! i) @ r
         else loaded K data pos ss ! i = None"
  using assms
proof (induction ss arbitrary: pos i)
  case Nil
  then show ?case by simp
next
  case (Cons s ss)
  let ?bs = "slot_bytes K s"
  have "drop (pos + length ?bs) data = drop (length ?bs) (drop pos data)"
    by (simp add: add.commute)
  then have d': "drop (pos + length ?bs) data = concat (map (slot_bytes K) ss) @ rest"
    using Cons.prems(1) by simp
  show ?case
  proof (cases i)
    case 0
    then show ?thesis
      using Cons.prems(1) by (auto simp: new_CoinEntry_def)
  next
    case (Suc k)
    then have k: "k < length ss"
      using Cons.prems(2) by simp
    show ?thesis
    proof (cases "live s")
      case True
      then show ?thesis
        using Suc Cons.IH[OF d' k] by (auto split: if_splits)
    next
      case False
      then have "?bs = []"
        by (rule slot_bytes_not_live)
      then show ?thesis
        using Suc False Cons.IH[OF d'[unfolded \<open>?bs = []\<close>, simplified] k]
        by (auto split: if_splits)
    qed
  qed
qed

lemma length_slots: "length (slots c n) = n"
  by (simp add: slots_def)

lemma slots_nth: "i < n \<Longrightarrow> slots c n ! i = nth_js (outputs c) i"
  by (simp add: slots_def)

lemma live_slots: "map live (slots c n) = map (isUnspent c) [0..<n]"
  by (simp add: slots_def live_nth_js)

lemma wf_slots:
  assumes "wf_coins K c"
  shows "\<forall>e. Some e \<in> set (slots c n) \<longrightarrow> wf_entry K e"
proof (intro allI impI)
  fix e assume "Some e \<in> set (slots c n)"
  then obtain i where "nth_js (outputs c) i = Some e"
    by (auto simp: slots_def)
  with assms show "wf_entry K e"
    by (rule wf_coins_nth_js)
qed

lemma not_isUnspent_ge: "length_c c \<le> i \<Longrightarrow> \<not> isUnspent c i"
  using isUnspent_lt_length_c[of c i] by auto

lemma slot_bytes_ge: "length_c c \<le> i \<Longrightarrow> slot_bytes K (nth_js (outputs c) i) = []"
  by (rule slot_bytes_not_live) (simp add: live_nth_js not_isUnspent_ge)

lemma slots_tail:
  assumes "length_c c \<le> n"
  shows "concat (map (slot_bytes K) (slots c n)) = concat (map (slot_bytes K) (slots c (length_c c)))"
proof -
  have "[0..<n] = [0..<length_c c] @ [length_c c..<n]"
    using assms by (metis le_add_diff_inverse upt_add_eq_append zero_le)
  then have "slots c n = slots c (length_c c) @ map (nth_js (outputs c)) [length_c c..<n]"
    by (simp add: slots_def)
  moreover have "concat (map (slot_bytes K) (map (nth_js (outputs c)) [length_c c..<n])) = []"
    by (simp add: slot_bytes_ge)
  ultimately show ?thesis by simp
qed

lemma length_upt_2: "length [2..<2 + m] = m"
  by (simp only: length_upt add_diff_cancel_left')

lemma nth_upt_2: "k < m \<Longrightarrow> [2..<2 + m] ! k = 2 + k"
  by (rule nth_upt) simp

lemma field_bits_eqI:
  assumes "\<And>i j. i < sz \<Longrightarrow> j < 8 \<Longrightarrow> bit (byte_at data (offs + i)) j = f (2 + 8 * i + j)"
  shows "field_bits data offs sz = map f [2..<2 + 8 * sz]"
proof (rule nth_equalityI)
  show "length (field_bits data offs sz) = length (map f [2..<2 + 8 * sz])"
    by (simp only: length_field_bits length_map length_upt_2)
next
  fix k assume "k < length (field_bits data offs sz)"
  then have k: "k < 8 * sz"
    by (simp add: length_field_bits)
  then have i: "k div 8 < sz" and j: "k mod 8 < 8"
    by auto
  have e: "8 * (k div 8) + k mod 8 = k"
    by simp
  have "field_bits data offs sz ! (8 * (k div 8) + k mod 8) = f (2 + 8 * (k div 8) + k mod 8)"
    using field_bits_nth[OF i j, of data offs] assms[OF i j] by simp
  then have "field_bits data offs sz ! k = f (2 + k)"
    by (simp only: e add.assoc)
  moreover have "map f [2..<2 + 8 * sz] ! k = f (2 + k)"
    using k by (simp only: nth_map length_upt_2 nth_upt_2)
  ultimately show "field_bits data offs sz ! k = map f [2..<2 + 8 * sz] ! k"
    by simp
qed

lemma size_bound: "(n::nat) \<le> 2 + 8 * ((n + 5) div 8)"
  by presburger

lemma upt_2: "[0..<2 + n] = 0 # 1 # [2..<2 + n]"
  by (simp add: upt_conv_Cons numeral_2_eq_2)

text \<open>
  The record \<open>fromRaw\<close> builds from the bytes \<open>toRaw\<close> wrote: the header fields, and one
  entry per live slot, pointing at that slot's bytes.
\<close>

lemma fromRaw_toRaw:
  assumes ok: "compressor_ok K canon" and wf: "wf_coins K c" and ne: "length_c c \<noteq> 0"
    and buf: "toRaw K c = Inr buf"
  shows "\<exists>p. Coins_fromRaw K buf hsh =
               Inr (cleanup (new_Coins\<lparr>hash := hsh, version := version c,
                       height := int (nat (take_bit 32 (height c))), coinbase := coinbase c,
                       outputs := loaded K buf p (slots c (2 + 8 * ((length_c c + 5) div 8)))\<rparr>)) \<and>
             drop p buf = concat (map (slot_bytes K) (slots c (2 + 8 * ((length_c c + 5) div 8))))"
proof -
  define L where "L = length_c c"
  define S where "S = (L + 5) div 8"
  define code where
    "code = 8 * (if isUnspent c 0 \<or> isUnspent c 1 then S else S - 1)
            + low_bits (coinbase c) (isUnspent c 0) (isUnspent c 1)"
  define hdr where "hdr = writeVarint (version c) @ writeU32 (height c) @ writeVarint code"
  define field where "field = spent_field c L S 0"
  define tl where "tl = concat (map (slot_bytes K) (slots c L))"
  define ss where "ss = slots c (2 + 8 * S)"
  define p where "p = length hdr + S"
  have "toRaw K c = Inr (hdr @ field @ tl)"
    unfolding hdr_def field_def tl_def code_def S_def L_def append_assoc
    by (rule toRaw_eq[OF wf ne])
  with buf have b: "buf = hdr @ field @ tl"
    by simp
  have hd: "read_headers buf = Inr (version c, nat (take_bit 32 (height c)), code, length hdr)"
    using read_headers_eq[of "version c" "height c" code "field @ tl"]
    by (simp add: b hdr_def length_writeU32)
  have "header c L S = Inr code"
    unfolding code_def S_def L_def by (rule header_ok[OF ne])
  then have rs: "recalc_size code = S"
    by (rule header_recalc)
  have lf: "length field = S"
    by (simp add: field_def spent_field_length)
  have sk: "seek buf (length hdr) S = Inr p"
    by (simp add: seek_def b lf p_def)
  have dr: "drop p buf = tl"
    by (simp add: b lf p_def)
  have tl': "concat (map (slot_bytes K) ss) = tl"
    unfolding ss_def tl_def L_def S_def by (rule slots_tail) (rule size_bound)
  have byte: "byte_at buf (length hdr + i) = field ! i" if "i < S" for i
    using that lf by (simp add: byte_at_def b nth_append)
  have fb: "field_bits buf (length hdr) S = map (isUnspent c) [2..<2 + 8 * S]"
  proof (rule field_bits_eqI)
    fix i j :: nat assume i: "i < S" and j: "j < 8"
    have "bit (field ! i) j = isUnspent c (2 + 8 * i + j)"
      unfolding field_def L_def using i j by (rule spent_field_bit)
    then show "bit (byte_at buf (length hdr + i)) j = isUnspent c (2 + 8 * i + j)"
      by (simp only: byte[OF i])
  qed
  have c2: "(code AND 2 \<noteq> 0) = isUnspent c 0" and c4: "(code AND 4 \<noteq> 0) = isUnspent c 1"
    and c1: "(code AND 1 \<noteq> 0) = coinbase c"
    using code_and(1,2,3)[OF code_def] by blast+
  have bits: "(code AND 2 \<noteq> 0) # (code AND 4 \<noteq> 0) # field_bits buf (length hdr) S = map live ss"
    unfolding ss_def live_slots upt_2 fb c2 c4 by simp
  have rd: "read_slots K buf p (map live ss) =
              Inr (loaded K buf p ss, p + length (concat (map (slot_bytes K) ss)))"
    using ok
  proof (rule read_slots_loaded)
    show "\<forall>e. Some e \<in> set ss \<longrightarrow> wf_entry K e"
      unfolding ss_def using wf by (rule wf_slots)
    show "drop p buf = concat (map (slot_bytes K) ss) @ []"
      using dr tl' by simp
  qed
  have fr: "fromRaw K new_Coins buf hsh =
          Inr (cleanup (new_Coins\<lparr>hash := hsh, version := version c,
                  height := int (nat (take_bit 32 (height c))), coinbase := coinbase c,
                  outputs := loaded K buf p ss\<rparr>))"
    unfolding fromRaw_eq hd
    by (simp only: rs sk bits rd c1 sum.case prod.case) (simp add: new_Coins_def)
  show ?thesis
  proof (intro exI conjI)
    show "Coins_fromRaw K buf hsh =
            Inr (cleanup (new_Coins\<lparr>hash := hsh, version := version c,
                    height := int (nat (take_bit 32 (height c))), coinbase := coinbase c,
                    outputs := loaded K buf p (slots c (2 + 8 * ((length_c c + 5) div 8)))\<rparr>))"
      using fr unfolding Coins_fromRaw_def ss_def S_def L_def .
    show "drop p buf = concat (map (slot_bytes K) (slots c (2 + 8 * ((length_c c + 5) div 8))))"
      using dr tl' unfolding ss_def S_def L_def by simp
  qed
qed

lemma get_nth_js: "get c i = nth_js (outputs c) i"
  by (simp add: get_def nth_js_def)

lemma length_c_cong:
  assumes "\<And>i. isUnspent c' i = isUnspent c i"
  shows "length_c c' = length_c c"
proof -
  have le: "length_c a \<le> length_c b" if "\<And>i. isUnspent a i = isUnspent b i" for a b
  proof (cases "length_c a = 0")
    case True
    then show ?thesis by simp
  next
    case False
    then have "isUnspent a (length_c a - 1)"
      by (rule length_c_last)
    then have "isUnspent b (length_c a - 1)"
      using that by simp
    then have "length_c a - 1 < length_c b"
      by (rule isUnspent_lt_length_c)
    then show ?thesis by simp
  qed
  show ?thesis
    using le[of c' c] le[of c c'] assms by simp
qed

lemma spent_field_cong:
  assumes "\<And>i. isUnspent c' i = isUnspent c i"
  shows "spent_field c' len sz i = spent_field c len sz i"
proof (rule nth_equalityI)
  show "length (spent_field c' len sz i) = length (spent_field c len sz i)"
    by (simp add: spent_field_length)
next
  fix k assume "k < length (spent_field c' len sz i)"
  then have k: "i + k < sz"
    by (simp add: spent_field_length)
  have "spent_byte c' len (i + k) 0 0 = spent_byte c len (i + k) 0 0"
    by (rule bit_eqI) (simp add: spent_byte_bit assms)
  then show "spent_field c' len sz i ! k = spent_field c len sz i ! k"
    using k by (simp add: spent_field_nth)
qed

lemma toRaw_Inr_length: "toRaw K c = Inr buf \<Longrightarrow> length_c c \<noteq> 0"
proof
  assume "toRaw K c = Inr buf" and "length_c c = 0"
  then show False
    by (simp add: toRaw_def header_def)
qed

text \<open>What \<open>Coins.fromRaw\<close> makes of the buffer \<open>toRaw\<close> returned.\<close>

lemma reload_props:
  assumes ok: "compressor_ok K canon" and wf: "wf_coins K c" and buf: "toRaw K c = Inr buf"
  shows "\<exists>c'. Coins_fromRaw K buf hsh = Inr c' \<and>
           version c' = version c \<and> height c' = int (nat (take_bit 32 (height c))) \<and>
           coinbase c' = coinbase c \<and> hash c' = hsh \<and>
           (\<forall>i. isUnspent c' i = isUnspent c i) \<and>
           (\<forall>i. \<not> isUnspent c i \<longrightarrow> get c' i = None) \<and>
           (\<forall>i e. get c i = Some e \<and> \<not> spent e \<longrightarrow>
              (\<exists>e' r. get c' i = Some e' \<and> raw e' = Some buf \<and> output_e e' = None \<and>
                 \<not> spent e' \<and> size_e e' = length (slot_bytes K (Some e)) \<and>
                 drop (offset e') buf = slot_bytes K (Some e) @ r))"
proof -
  have ne: "length_c c \<noteq> 0"
    using buf by (rule toRaw_Inr_length)
  define n where "n = 2 + 8 * ((length_c c + 5) div 8)"
  from fromRaw_toRaw[OF ok wf ne buf, of hsh] obtain p where
    fr: "Coins_fromRaw K buf hsh =
           Inr (cleanup (new_Coins\<lparr>hash := hsh, version := version c,
                   height := int (nat (take_bit 32 (height c))), coinbase := coinbase c,
                   outputs := loaded K buf p (slots c n)\<rparr>))"
    and dr: "drop p buf = concat (map (slot_bytes K) (slots c n))"
    unfolding n_def by blast
  define c' where "c' = cleanup (new_Coins\<lparr>hash := hsh, version := version c,
                   height := int (nat (take_bit 32 (height c))), coinbase := coinbase c,
                   outputs := loaded K buf p (slots c n)\<rparr>)"
  have Ln: "length_c c \<le> n"
    unfolding n_def by (rule size_bound)
  have g: "get c' i = (if i < n then loaded K buf p (slots c n) ! i else None)" for i
    unfolding c'_def get_cleanup by (simp add: get_def length_loaded length_slots)
  have dr': "drop p buf = concat (map (slot_bytes K) (slots c n)) @ []"
    using dr by simp
  have nl: "get c' i = None" if "\<not> isUnspent c i" for i
  proof (cases "i < n")
    case True
    then show ?thesis
      using loaded_nth[OF dr', of i] that
      by (simp add: g length_slots slots_nth live_nth_js)
  next
    case False
    then show ?thesis by (simp add: g)
  qed
  have lv: "\<exists>e' r. get c' i = Some e' \<and> raw e' = Some buf \<and> output_e e' = None \<and>
                 \<not> spent e' \<and> size_e e' = length (slot_bytes K (Some e)) \<and>
                 drop (offset e') buf = slot_bytes K (Some e) @ r"
    if "get c i = Some e" "\<not> spent e" for i e
  proof -
    have u: "isUnspent c i"
      using that by (simp add: isUnspent_get)
    then have i: "i < n"
      using isUnspent_lt_length_c[of c i] Ln by simp
    have s: "slots c n ! i = Some e"
      using i that(1) by (simp add: slots_nth get_nth_js)
    show ?thesis
      using loaded_nth[OF dr', of i] i that(2) by (simp add: g length_slots s live_Some)
  qed
  have un: "isUnspent c' i = isUnspent c i" for i
  proof (cases "isUnspent c i")
    case False
    then show ?thesis
      using nl[of i] by (simp add: isUnspent_get)
  next
    case True
    then obtain e where "get c i = Some e" "\<not> spent e"
      by (auto simp: isUnspent_iff)
    from lv[OF this] True show ?thesis
      by (auto simp: isUnspent_get)
  qed
  have "version c' = version c \<and> height c' = int (nat (take_bit 32 (height c))) \<and>
        coinbase c' = coinbase c \<and> hash c' = hsh"
    by (simp add: c'_def cleanup_def)
  then show ?thesis
    using fr[folded c'_def] un nl lv by blast
qed

section \<open>Round trips\<close>

lemma output_of_get:
  "output_of K c i =
     (case get c i of
        None \<Rightarrow> Inr None
      | Some e \<Rightarrow> (case toOutput K e of Inl err \<Rightarrow> Inl err | Inr (out, e') \<Rightarrow> Inr (Some out)))"
  by (simp add: output_of_def getOutput_def split: option.splits sum.splits prod.splits)

lemma toOutput_loaded:
  "raw e = Some buf \<Longrightarrow> output_e e = None \<Longrightarrow>
     toOutput K e =
       (case decompress_output K (drop (offset e) buf) of
          None \<Rightarrow> Inl DecodeError
        | Some out \<Rightarrow> Inr (out, e\<lparr>output_e := Some out\<rparr>))"
  by (simp add: toOutput_def reader_def output_at_def split: option.splits)

lemma toOutput_wf:
  "wf_entry K e \<Longrightarrow>
     (case toOutput K e of Inl err \<Rightarrow> Inl err | Inr (out, e') \<Rightarrow> Inr (Some out)) =
       (case raw e of
          None \<Rightarrow> Inr (output_e e)
        | Some buf \<Rightarrow>
            (case decompress_output K (drop (offset e) buf) of
               None \<Rightarrow> Inl DecodeError
             | Some out \<Rightarrow> Inr (Some out)))"
  by (auto simp: wf_entry_def toOutput_def reader_def output_at_def split: option.splits)

lemma reload_output:
  assumes ok: "compressor_ok K canon" and wfe: "wf_entry K e" and live: "\<not> spent e"
    and g: "get c i = Some e" and g': "get c' i = Some e'"
    and e': "raw e' = Some buf" "output_e e' = None"
            "drop (offset e') buf = slot_bytes K (Some e) @ r"
  shows "map_sum id (map_option canon) (output_of K c' i) =
         map_sum id (map_option canon) (output_of K c i)"
proof -
  have d: "decompress_output K (drop (offset e') buf) =
             (case raw e of
                None \<Rightarrow> map_option canon (output_e e)
              | Some b \<Rightarrow> decompress_output K (drop (offset e) b))"
    unfolding e'(3) using ok wfe live by (rule entry_bytes(2))
  have a: "output_of K c i =
             (case raw e of
                None \<Rightarrow> Inr (output_e e)
              | Some b \<Rightarrow>
                  (case decompress_output K (drop (offset e) b) of
                     None \<Rightarrow> Inl DecodeError
                   | Some out \<Rightarrow> Inr (Some out)))"
    by (simp add: output_of_get g toOutput_wf[OF wfe])
  have b: "output_of K c' i =
             (case decompress_output K (drop (offset e') buf) of
                None \<Rightarrow> Inl DecodeError
              | Some out \<Rightarrow> Inr (Some out))"
    by (simp add: output_of_get g' toOutput_loaded[OF e'(1,2)] split: option.splits)
  show ?thesis
  proof (cases "raw e")
    case None
    with wfe obtain out where "output_e e = Some out"
      by (auto simp: wf_entry_def)
    then show ?thesis
      using None by (simp add: a b d ok_idem[OF ok])
  next
    case (Some b0)
    then show ?thesis
      by (simp add: a b d)
  qed
qed

lemma take_bit_32_id: "0 \<le> h \<Longrightarrow> h < 2 ^ 32 \<Longrightarrow> int (nat (take_bit 32 h)) = h"
  by (simp add: take_bit_int_eq_self)

text \<open>
  C1, as the code has it. For every well-formed record that is not fully spent,
  \<open>toRaw\<close> returns a buffer and \<open>Coins.fromRaw\<close>, given that buffer and the same hash,
  returns a record with the same version, coinbase flag and hash and with the height
  modulo \<open>2^32\<close>, hence the same height when the height is an unsigned 32-bit number; the
  two records have the same unspent indices, and at every unspent index their outputs
  (or the decode errors in their place) are equal after canonical reconstruction.
\<close>

theorem roundtrip_toRaw_fromRaw:
  assumes "compressor_ok K canon" and "wf_coins K c" and "length_c c \<noteq> 0"
  shows "\<exists>buf c'. toRaw K c = Inr buf \<and> Coins_fromRaw K buf (hash c) = Inr c' \<and>
           version c' = version c \<and> coinbase c' = coinbase c \<and> hash c' = hash c \<and>
           height c' = height c mod 2 ^ 32 \<and>
           (0 \<le> height c \<and> height c < 2 ^ 32 \<longrightarrow> height c' = height c) \<and>
           (\<forall>i. isUnspent c' i = isUnspent c i) \<and>
           (\<forall>i. isUnspent c i \<longrightarrow>
              map_sum id (map_option canon) (output_of K c' i) =
              map_sum id (map_option canon) (output_of K c i))"
proof -
  obtain buf where buf: "toRaw K c = Inr buf"
    using toRaw_eq[OF assms(2,3)] by blast
  from reload_props[OF assms(1,2) buf, of "hash c"] obtain c' where
    fr: "Coins_fromRaw K buf (hash c) = Inr c'" and
    hd: "version c' = version c" "height c' = int (nat (take_bit 32 (height c)))"
        "coinbase c' = coinbase c" "hash c' = hash c" and
    un: "\<forall>i. isUnspent c' i = isUnspent c i" and
    lv: "\<forall>i e. get c i = Some e \<and> \<not> spent e \<longrightarrow>
              (\<exists>e' r. get c' i = Some e' \<and> raw e' = Some buf \<and> output_e e' = None \<and>
                 \<not> spent e' \<and> size_e e' = length (slot_bytes K (Some e)) \<and>
                 drop (offset e') buf = slot_bytes K (Some e) @ r)"
    by blast
  have h: "height c' = height c mod 2 ^ 32"
    by (simp add: hd(2) take_bit_eq_mod)
  have out: "map_sum id (map_option canon) (output_of K c' i) =
             map_sum id (map_option canon) (output_of K c i)" if "isUnspent c i" for i
  proof -
    from that obtain e where e: "get c i = Some e" "\<not> spent e"
      by (auto simp: isUnspent_iff)
    with lv obtain e' r where e': "get c' i = Some e'" "raw e' = Some buf" "output_e e' = None"
        "drop (offset e') buf = slot_bytes K (Some e) @ r"
      by blast
    have wfe: "wf_entry K e"
      using assms(2) e(1) by (auto simp: get_nth_js dest: wf_coins_nth_js)
    show ?thesis
      using assms(1) wfe e(2) e(1) e' by (rule reload_output)
  qed
  show ?thesis
    using buf fr hd(1,3,4) h un out by (intro exI[of _ buf] exI[of _ c']) simp
qed

lemma slot_bytes_loaded:
  assumes "raw e' = Some buf" and "\<not> spent e'" and "size_e e' = length bs"
    and "drop (offset e') buf = bs @ r"
  shows "slot_bytes K (Some e') = bs"
  using assms by (simp add: slot_bytes_def toWriter_def slice_def)

text \<open>
  C4, as the code has it. For every buffer that \<open>toRaw\<close> returns for a well-formed
  record, \<open>Coins.fromRaw\<close> followed at once by \<open>toRaw\<close> returns the same bytes: the record
  read is well formed, each of its entries is unmaterialised and points into the buffer,
  and header, spent field and copied entries reproduce the buffer.
\<close>

theorem rewrite_identity:
  assumes "compressor_ok K canon" and "wf_coins K c" and "toRaw K c = Inr buf"
  shows "\<exists>c'. Coins_fromRaw K buf hsh = Inr c' \<and> toRaw K c' = Inr buf \<and>
           rewrite K buf hsh = Inr buf \<and>
           (\<forall>e'. Some e' \<in> set (outputs c') \<longrightarrow> raw e' = Some buf \<and> output_e e' = None)"
proof -
  have ne: "length_c c \<noteq> 0"
    using assms(3) by (rule toRaw_Inr_length)
  from reload_props[OF assms, of hsh] obtain c' where
    fr: "Coins_fromRaw K buf hsh = Inr c'" and
    hd: "version c' = version c" "height c' = int (nat (take_bit 32 (height c)))"
        "coinbase c' = coinbase c" and
    un: "\<And>i. isUnspent c' i = isUnspent c i" and
    nl: "\<And>i. \<not> isUnspent c i \<Longrightarrow> get c' i = None" and
    lv: "\<And>i e. get c i = Some e \<Longrightarrow> \<not> spent e \<Longrightarrow>
              (\<exists>e' r. get c' i = Some e' \<and> raw e' = Some buf \<and> output_e e' = None \<and>
                 \<not> spent e' \<and> size_e e' = length (slot_bytes K (Some e)) \<and>
                 drop (offset e') buf = slot_bytes K (Some e) @ r)"
    by blast
  have wfe: "wf_entry K e" if "get c i = Some e" for i e
    using assms(2) that by (auto simp: get_nth_js dest: wf_coins_nth_js)
  have ent: "raw e' = Some buf \<and> output_e e' = None \<and> wf_entry K e'"
    if "Some e' \<in> set (outputs c')" for e'
  proof -
    from that obtain i where "i < length (outputs c')" "outputs c' ! i = Some e'"
      by (auto simp: in_set_conv_nth)
    then have i: "get c' i = Some e'"
      by (simp add: get_def)
    then have "isUnspent c i"
      using nl[of i] by auto
    then obtain e where e: "get c i = Some e" "\<not> spent e"
      by (auto simp: isUnspent_iff)
    from lv[OF e] i obtain r where
      r: "raw e' = Some buf" "output_e e' = None" "size_e e' = length (slot_bytes K (Some e))"
         "drop (offset e') buf = slot_bytes K (Some e) @ r"
      by auto
    have "decompress_skip K (drop (offset e') buf) = Some (size_e e')"
      unfolding r(3,4) using assms(1) wfe[OF e(1)] e(2) by (rule entry_bytes(1))
    then show ?thesis
      using r(1,2) by (simp add: wf_entry_def)
  qed
  then have wf': "wf_coins K c'"
    by (simp add: wf_coins_def)
  have len: "length_c c' = length_c c"
    using un by (rule length_c_cong)
  have sb: "slot_bytes K (nth_js (outputs c') i) = slot_bytes K (nth_js (outputs c) i)" for i
  proof (cases "isUnspent c i")
    case False
    then have "nth_js (outputs c') i = None"
      using nl[of i] by (simp add: get_nth_js)
    moreover have "slot_bytes K (nth_js (outputs c) i) = []"
      using False by (intro slot_bytes_not_live) (simp add: live_nth_js)
    ultimately show ?thesis
      by (simp add: slot_bytes_None)
  next
    case True
    then obtain e where e: "get c i = Some e" "\<not> spent e"
      by (auto simp: isUnspent_iff)
    from lv[OF e] obtain e' r where
      r: "get c' i = Some e'" "raw e' = Some buf" "\<not> spent e'"
         "size_e e' = length (slot_bytes K (Some e))"
         "drop (offset e') buf = slot_bytes K (Some e) @ r"
      by blast
    have "slot_bytes K (Some e') = slot_bytes K (Some e)"
      using r(2-5) by (rule slot_bytes_loaded)
    then show ?thesis
      using e(1) r(1) by (simp add: get_nth_js)
  qed
  then have tl: "map (slot_bytes K) (slots c' n) = map (slot_bytes K) (slots c n)" for n
    by (simp add: slots_def)
  have "toRaw K c' = toRaw K c"
    unfolding toRaw_eq[OF wf' ne[folded len]] toRaw_eq[OF assms(2) ne] len hd un tl
      writeU32_wrap spent_field_cong[of c' c, OF un] ..
  then have w: "toRaw K c' = Inr buf"
    using assms(3) by simp
  show ?thesis
    using fr w ent by (intro exI[of _ c']) (simp add: rewrite_def)
qed

section \<open>The walk of \<open>parseCoin\<close>\<close>

lemma walk_slots_append:
  "walk_slots K data coin index pos (bs @ bs') =
     (case walk_slots K data coin index pos bs of
        Inl e \<Rightarrow> Inl e
      | Inr (Return r) \<Rightarrow> Inr (Return r)
      | Inr (Continue index' pos') \<Rightarrow> walk_slots K data coin index' pos' bs')"
  by (induction bs arbitrary: index pos) (auto split: sum.splits walk.splits)

lemma parseCoin_first_eq:
  "parseCoin_first K data coin code i index pos =
     walk_slots K data coin index pos (map (\<lambda>i. code AND push_bit i 2 \<noteq> 0) [i..<2])"
proof (induction K data coin code i index pos rule: parseCoin_first.induct)
  case (1 K data coin code i index pos)
  show ?case
  proof (cases "i < 2")
    case False
    then show ?thesis
      by (subst parseCoin_first.simps) simp
  next
    case True
    then have upt: "[i..<2] = i # [i + 1..<2]"
      by (simp add: upt_conv_Cons)
    show ?thesis
      using True "1.IH"[OF True]
      by (subst parseCoin_first.simps)
         (simp add: upt split: sum.splits walk.splits del: push_bit_of_1 upt_Suc)
  qed
qed

lemma parseCoin_bits_eq:
  "parseCoin_bits K data coin ch j index pos =
     walk_slots K data coin index pos (map (\<lambda>j. ch AND push_bit j 1 \<noteq> 0) [j..<8])"
proof (induction K data coin ch j index pos rule: parseCoin_bits.induct)
  case (1 K data coin ch j index pos)
  show ?case
  proof (cases "j < 8")
    case False
    then show ?thesis
      by (subst parseCoin_bits.simps) simp
  next
    case True
    then have upt: "[j..<8] = j # [j + 1..<8]"
      by (simp add: upt_conv_Cons)
    show ?thesis
      using True "1.IH"[OF True]
      by (subst parseCoin_bits.simps)
         (simp add: upt split: sum.splits walk.splits del: push_bit_of_1 upt_Suc)
  qed
qed

lemma parseCoin_field_eq:
  "parseCoin_field K data coin sz i offs index pos =
     walk_slots K data coin index pos (field_bits data offs (sz - i))"
proof (induction K data coin sz i offs index pos rule: parseCoin_field.induct)
  case (1 K data coin sz i offs index pos)
  show ?case
  proof (cases "i < sz")
    case False
    then show ?thesis
      by (subst parseCoin_field.simps) (simp add: field_bits_def)
  next
    case True
    have b: "parseCoin_bits K data coin (byte_at data offs) 0 index pos =
               walk_slots K data coin index pos (byte_bits (byte_at data offs))"
      by (simp add: parseCoin_bits_eq byte_bits_def)
    show ?thesis
      using True "1.IH"[OF True]
      by (subst parseCoin_field.simps)
         (simp add: b field_bits_step[OF True] walk_slots_append split: sum.splits walk.splits)
  qed
qed

lemma first_bits: "map (\<lambda>i. code AND push_bit i 2 \<noteq> 0) [0..<2] = [code AND 2 \<noteq> 0, code AND 4 \<noteq> (0::nat)]"
proof -
  have u: "[0..<2] = [0, Suc 0]"
    by (simp add: upt_conv_Cons numeral_2_eq_2)
  have p: "push_bit 0 (2::nat) = 2" "push_bit (Suc 0) (2::nat) = 4"
    by simp_all
  show ?thesis
    unfolding u by (simp only: list.map p)
qed

lemma parseCoin_eq:
  "parseCoin K data hsh index =
     (case read_headers data of
        Inl e \<Rightarrow> Inl e
      | Inr (ver, h, code, offs) \<Rightarrow>
          if index \<ge> 2 + recalc_size code * 8 then Inr None
          else
            (case seek data offs (recalc_size code) of
               Inl e \<Rightarrow> Inl e
             | Inr p \<Rightarrow>
                 (case walk_slots K data
                         \<lparr>coin_version = ver, coin_coinbase = (code AND 1 \<noteq> 0),
                          coin_height = int h, coin_hash = hsh, coin_index = index,
                          coin_script = [], coin_value = 0\<rparr> index p
                         ([code AND 2 \<noteq> 0, code AND 4 \<noteq> 0]
                          @ field_bits data offs (recalc_size code)) of
                    Inl e \<Rightarrow> Inl e
                  | Inr (Return r) \<Rightarrow> Inr r
                  | Inr (Continue index' p') \<Rightarrow> Inr None)))"
  unfolding parseCoin_def parseCoin_first_eq parseCoin_field_eq first_bits walk_slots_append Let_def
  by (simp split: sum.splits prod.splits walk.splits del: walk_slots.simps)

lemma walk_read_slots:
  "read_slots K data pos bs = Inr (es, p) \<Longrightarrow>
     walk_slots K data coin index pos bs =
       (if index < length bs then
          (case es ! index of
             None \<Rightarrow> Inr (Return None)
           | Some e \<Rightarrow>
               (case output_at K data (offset e) of
                  Inl err \<Rightarrow> Inl err
                | Inr out \<Rightarrow>
                    Inr (Return (Some (coin\<lparr>coin_value := out_value out,
                                            coin_script := out_script out\<rparr>)))))
        else Inr (Continue (index - length bs) p))"
proof (induction bs arbitrary: index pos es)
  case Nil
  then show ?case by simp
next
  case (Cons b bs)
  show ?case
  proof (cases b)
    case False
    with Cons.prems obtain es' where es': "read_slots K data pos bs = Inr (es', p)" "es = None # es'"
      by (auto split: sum.splits prod.splits)
    show ?thesis
    proof (cases index)
      case 0
      then show ?thesis
        using False es'(2) by (simp add: parse_slot_def)
    next
      case (Suc k)
      then show ?thesis
        using False es'(2) Cons.IH[OF es'(1), of k] by (simp add: parse_slot_def)
    qed
  next
    case True
    with Cons.prems obtain entry pos' es' where
      r: "fromReader K data pos = Inr (entry, pos')"
         "read_slots K data pos' bs = Inr (es', p)" "es = Some entry # es'"
      by (auto split: sum.splits prod.splits)
    from r(1) obtain n where n: "skip_at K data pos = Inr n" "pos' = pos + n" "offset entry = pos"
      by (auto simp: fromReader_def new_CoinEntry_def split: sum.splits)
    show ?thesis
    proof (cases index)
      case 0
      then show ?thesis
        using True r(3) n(3) by (simp add: parse_slot_def split: sum.splits)
    next
      case (Suc k)
      then show ?thesis
        using True r(3) n Cons.IH[OF r(2)[unfolded n(2)], of k] by (simp add: parse_slot_def)
    qed
  qed
qed

lemma Coins_fromRaw_parts:
  assumes "Coins_fromRaw K data hsh = Inr c'"
  shows "\<exists>ver h code offs p es p'.
           read_headers data = Inr (ver, h, code, offs) \<and>
           seek data offs (recalc_size code) = Inr p \<and>
           read_slots K data p ((code AND 2 \<noteq> 0) # (code AND 4 \<noteq> 0)
                                 # field_bits data offs (recalc_size code)) = Inr (es, p') \<and>
           c' = cleanup (new_Coins\<lparr>hash := hsh, version := ver, height := int h,
                                     coinbase := (code AND 1 \<noteq> 0), outputs := es\<rparr>)"
  using assms
  by (auto simp add: Coins_fromRaw_def fromRaw_eq new_Coins_def simp del: read_slots.simps
      split: sum.splits prod.splits)

lemma coin_of_get:
  "coin_of K c i =
     (case get c i of
        None \<Rightarrow> Inr None
      | Some e \<Rightarrow>
          (case toOutput K e of
             Inl err \<Rightarrow> Inl err
           | Inr (out, e') \<Rightarrow>
               Inr (Some \<lparr>coin_version = version c, coin_coinbase = coinbase c,
                          coin_height = height c, coin_hash = hash c, coin_index = i,
                          coin_script = out_script out, coin_value = out_value out\<rparr>)))"
  by (simp add: coin_of_def getCoin_def toCoin_def split: option.splits sum.splits prod.splits)

lemma parseCoin_fromRaw:
  assumes "Coins_fromRaw K data hsh = Inr c'"
  shows "parseCoin K data hsh i = coin_of K c' i"
proof -
  from Coins_fromRaw_parts[OF assms] obtain ver h code offs p es p' where
    hd: "read_headers data = Inr (ver, h, code, offs)" and
    sk: "seek data offs (recalc_size code) = Inr p" and
    rd: "read_slots K data p ((code AND 2 \<noteq> 0) # (code AND 4 \<noteq> 0)
                                 # field_bits data offs (recalc_size code)) = Inr (es, p')" and
    c': "c' = cleanup (new_Coins\<lparr>hash := hsh, version := ver, height := int h,
                                   coinbase := (code AND 1 \<noteq> 0), outputs := es\<rparr>)"
    by blast
  define bits where "bits = (code AND 2 \<noteq> 0) # (code AND 4 \<noteq> 0)
                                 # field_bits data offs (recalc_size code)"
  define coin where "coin = \<lparr>coin_version = ver, coin_coinbase = (code AND 1 \<noteq> 0),
                          coin_height = int h, coin_hash = hsh, coin_index = i,
                          coin_script = [], coin_value = 0\<rparr>"
  note shape = read_slots_shape[OF rd[folded bits_def]]
  have lb: "length bits = 2 + recalc_size code * 8"
    by (simp add: bits_def length_field_bits)
  have le: "length es = length bits"
    using shape by simp
  have f: "version c' = ver \<and> coinbase c' = (code AND 1 \<noteq> 0) \<and> height c' = int h \<and> hash c' = hsh"
    by (simp add: c' cleanup_def)
  have g: "get c' i = (if i < length bits then es ! i else None)"
    unfolding c' get_cleanup by (simp add: get_def le)
  have pc: "parseCoin K data hsh i =
              (if i \<ge> length bits then Inr None
               else (case walk_slots K data coin i p bits of
                       Inl e \<Rightarrow> Inl e
                     | Inr (Return r) \<Rightarrow> Inr r
                     | Inr (Continue index' p') \<Rightarrow> Inr None))"
    unfolding parseCoin_eq hd lb
    by (simp add: sk bits_def coin_def del: walk_slots.simps)
  show ?thesis
  proof (cases "i < length bits")
    case False
    then show ?thesis
      by (simp add: pc coin_of_get g)
  next
    case True
    note w = walk_read_slots[OF rd[folded bits_def], of coin i]
    show ?thesis
    proof (cases "es ! i")
      case None
      then have "walk_slots K data coin i p bits = Inr (Return None)"
        using w True by simp
      then show ?thesis
        unfolding pc coin_of_get g using True None by simp
    next
      case (Some e)
      have "bits ! i"
        using shape True Some by (auto split: if_splits)
      then have e: "raw e = Some data" "output_e e = None"
        using shape True Some by (auto split: if_splits)
      have "toOutput K e =
              (case output_at K data (offset e) of
                 Inl err \<Rightarrow> Inl err
               | Inr out \<Rightarrow> Inr (out, e\<lparr>output_e := Some out\<rparr>))"
        by (simp add: toOutput_def reader_def e)
      moreover have "walk_slots K data coin i p bits =
              (case output_at K data (offset e) of
                 Inl err \<Rightarrow> Inl err
               | Inr out \<Rightarrow>
                   Inr (Return (Some (coin\<lparr>coin_value := out_value out,
                                           coin_script := out_script out\<rparr>))))"
        using w True Some by simp
      ultimately show ?thesis
        unfolding pc coin_of_get g using True Some f
        by (simp add: coin_def split: sum.splits)
    qed
  qed
qed

lemma read_headers_toRaw:
  assumes "wf_coins K c" and "toRaw K c = Inr buf"
  shows "\<exists>code offs. read_headers buf = Inr (version c, nat (take_bit 32 (height c)), code, offs) \<and>
           recalc_size code = (length_c c + 5) div 8"
proof -
  have ne: "length_c c \<noteq> 0"
    using assms(2) by (rule toRaw_Inr_length)
  define code where
    "code = 8 * (if isUnspent c 0 \<or> isUnspent c 1 then (length_c c + 5) div 8
                 else (length_c c + 5) div 8 - 1)
            + low_bits (coinbase c) (isUnspent c 0) (isUnspent c 1)"
  have "toRaw K c = Inr (writeVarint (version c) @ writeU32 (height c) @ writeVarint code
          @ spent_field c (length_c c) ((length_c c + 5) div 8) 0
          @ concat (map (slot_bytes K) (slots c (length_c c))))"
    unfolding code_def by (rule toRaw_eq[OF assms(1) ne])
  with assms(2) have b: "buf = writeVarint (version c) @ writeU32 (height c) @ writeVarint code
          @ spent_field c (length_c c) ((length_c c + 5) div 8) 0
          @ concat (map (slot_bytes K) (slots c (length_c c)))"
    by simp
  have "header c (length_c c) ((length_c c + 5) div 8) = Inr code"
    unfolding code_def by (rule header_ok[OF ne])
  then have "recalc_size code = (length_c c + 5) div 8"
    by (rule header_recalc)
  then show ?thesis
    unfolding b using read_headers_eq by blast
qed

lemma parseCoin_early:
  assumes "read_headers data = Inr (ver, h, code, offs)" and "2 + 8 * recalc_size code \<le> i"
  shows "parseCoin K data hsh i = Inr None"
  using assms by (simp add: parseCoin_def Let_def mult.commute)

text \<open>
  C2. For every buffer that \<open>toRaw\<close> returns for a well-formed record, \<open>Coins.fromRaw\<close>
  succeeds, and for every index \<open>parseCoin\<close> returns what \<open>getCoin\<close> returns on the record
  read: the same coin, or nothing in both cases, or the decode error of the entry in both
  cases. From index \<open>2 + 8 S\<close> on, with \<open>S = floor((L + 5) / 8)\<close> the size of the spent field,
  \<open>parseCoin\<close> returns nothing. More generally, whenever \<open>Coins.fromRaw\<close> succeeds on a
  buffer, \<open>parseCoin\<close> agrees with \<open>getCoin\<close> on the record read; and on any buffer whose
  header can be read, \<open>parseCoin\<close> returns nothing for an index from \<open>2 + 8 S\<close> on, whatever
  follows the header.
\<close>

theorem parseCoin_matches_getCoin:
  assumes "compressor_ok K canon" and "wf_coins K c" and "toRaw K c = Inr buf"
  shows "(\<exists>c'. Coins_fromRaw K buf hsh = Inr c' \<and> parseCoin K buf hsh i = coin_of K c' i) \<and>
         (2 + 8 * ((length_c c + 5) div 8) \<le> i \<longrightarrow> parseCoin K buf hsh i = Inr None) \<and>
         (\<forall>data c'. Coins_fromRaw K data hsh = Inr c' \<longrightarrow> parseCoin K data hsh i = coin_of K c' i) \<and>
         (\<forall>data ver h code offs.
            read_headers data = Inr (ver, h, code, offs) \<and> 2 + 8 * recalc_size code \<le> i \<longrightarrow>
            parseCoin K data hsh i = Inr None)"
proof (intro conjI impI allI)
  from reload_props[OF assms, of hsh] obtain c' where c': "Coins_fromRaw K buf hsh = Inr c'"
    by blast
  then show "\<exists>c'. Coins_fromRaw K buf hsh = Inr c' \<and> parseCoin K buf hsh i = coin_of K c' i"
    using parseCoin_fromRaw by blast
next
  assume i: "2 + 8 * ((length_c c + 5) div 8) \<le> i"
  from read_headers_toRaw[OF assms(2,3)] obtain code offs where
    "read_headers buf = Inr (version c, nat (take_bit 32 (height c)), code, offs)"
    "recalc_size code = (length_c c + 5) div 8"
    by blast
  then show "parseCoin K buf hsh i = Inr None"
    using i parseCoin_early by simp
next
  fix data c' assume "Coins_fromRaw K data hsh = Inr c'"
  then show "parseCoin K data hsh i = coin_of K c' i"
    by (rule parseCoin_fromRaw)
next
  fix data ver h code offs
  assume "read_headers data = Inr (ver, h, code, offs) \<and> 2 + 8 * recalc_size code \<le> i"
  then show "parseCoin K data hsh i = Inr None"
    using parseCoin_early by blast
qed

section \<open>The reference compressor meets the contract\<close>

lemma raw_decompress_compress:
  "raw_decompress (writeVarint v @ writeVarint (length s + 0x10) @ s @ rest) =
     Some (\<lparr>out_value = v, out_script = s\<rparr>,
           length (writeVarint v) + length (writeVarint (length s + 0x10)) + length s)"
  by (simp add: raw_decompress_def read_writeVarint)

lemma raw_decompress_prefix:
  assumes "raw_decompress bs = Some (out, n)"
  shows "n \<le> length bs \<and> raw_decompress (take n bs @ rest) = Some (out, n)"
proof -
  from assms obtain v k m k' where
    a: "read_varint_loop bs 0 = Some (v, k)" and
    b: "read_varint_loop (drop k bs) 0 = Some (m, k')" and
    m: "\<not> m < 0x10" and len: "\<not> length bs < k + k' + (m - 0x10)" and
    n: "n = k + k' + (m - 0x10)" and
    out: "out = \<lparr>out_value = v, out_script = take (m - 0x10) (drop (k + k') bs)\<rparr>"
    by (auto simp: raw_decompress_def split: option.splits prod.splits if_splits)
  have nl: "n \<le> length bs"
    using len n by simp
  have kn: "k \<le> n" and kkn: "k + k' \<le> n"
    using n by simp_all
  define bs' where "bs' = take n bs @ rest"
  have t1: "bs' = take k bs @ (drop k (take n bs) @ rest)"
  proof -
    have "take k (take n bs) = take k bs"
      using kn by (simp add: min_def)
    then have "take n bs = take k bs @ drop k (take n bs)"
      by (metis append_take_drop_id)
    then show ?thesis
      by (simp add: bs'_def)
  qed
  have a': "read_varint_loop bs' 0 = Some (v, k)"
    unfolding t1 using read_varint_loop_prefix[OF a] by blast
  have d1: "drop k bs' = take (n - k) (drop k bs) @ rest"
    using kn nl by (simp add: bs'_def drop_take)
  have t2: "take (n - k) (drop k bs) @ rest =
              take k' (drop k bs) @ (drop k' (take (n - k) (drop k bs)) @ rest)"
  proof -
    have "take k' (take (n - k) (drop k bs)) = take k' (drop k bs)"
      using kkn by (simp add: min_def)
    then have "take (n - k) (drop k bs) = take k' (drop k bs) @ drop k' (take (n - k) (drop k bs))"
      by (metis append_take_drop_id)
    then show ?thesis
      by simp
  qed
  have b': "read_varint_loop (drop k bs') 0 = Some (m, k')"
    unfolding d1 t2 using read_varint_loop_prefix[OF b] by blast
  have c': "\<not> length bs' < k + k' + (m - 0x10)"
    using nl n by (simp add: bs'_def)
  have d2: "drop (k + k') bs' = take (m - 0x10) (drop (k + k') bs) @ rest"
    using kkn nl n by (simp add: bs'_def drop_take)
  have l: "length (take (m - 0x10) (drop (k + k') bs)) = m - 0x10"
    using len by simp
  have d': "take (m - 0x10) (drop (k + k') bs') = take (m - 0x10) (drop (k + k') bs)"
    unfolding d2 using l by simp
  have "raw_decompress bs' = Some (out, n)"
    using m c' by (simp add: raw_decompress_def a' b' d' out n)
  with nl show ?thesis
    by (simp add: bs'_def)
qed

lemma raw_compressor_ok: "compressor_ok raw_compressor (\<lambda>out. out)"
  unfolding compressor_ok_def
proof (intro conjI allI impI)
  fix out
  show "compress_size raw_compressor out = length (compress_output raw_compressor out)"
    by (simp add: raw_compressor_def sizeVarint_def)
next
  fix out rest
  have "raw_decompress (compress_output raw_compressor out @ rest) =
          Some (out, length (compress_output raw_compressor out))"
    using raw_decompress_compress[of "out_value out" "out_script out" rest]
    by (simp add: raw_compressor_def)
  then show "decompress_skip raw_compressor (compress_output raw_compressor out @ rest) =
               Some (length (compress_output raw_compressor out))"
    and "decompress_output raw_compressor (compress_output raw_compressor out @ rest) = Some out"
    by (simp_all add: raw_compressor_def)
next
  fix bs n rest
  assume "decompress_skip raw_compressor bs = Some n"
  then obtain out where d: "raw_decompress bs = Some (out, n)"
    by (auto simp: raw_compressor_def)
  from raw_decompress_prefix[OF d, of rest]
  show "n \<le> length bs" and "decompress_skip raw_compressor (take n bs @ rest) = Some n"
    and "decompress_output raw_compressor (take n bs @ rest) = decompress_output raw_compressor bs"
    using d by (simp_all add: raw_compressor_def)
qed (rule refl)

section \<open>The examples, evaluated\<close>

lemma writeVarint_small: "n \<le> 127 \<Longrightarrow> writeVarint n = [word_of_nat n]"
  by (simp add: writeVarint_def write_varint_loop_small vbyte_def nat_and_7F)

lemma compress_out51: "compress_output raw_compressor out51 = [0x05, 0x11, 0x51]"
  by (simp add: raw_compressor_def out51_def writeVarint_small)

lemma wf_coins_one: "wf_coins raw_compressor coins_one"
  by (simp add: wf_coins_def coins_one_def wf_entry_def fromOutput_def new_CoinEntry_def)

lemma length_c_coins_one: "length_c coins_one = 1"
  by (simp add: length_c_def coins_one_def isUnspent_def fromOutput_def new_CoinEntry_def)

lemma toRaw_coins_one:
  "toRaw raw_compressor coins_one = Inr [0x01, 0x64, 0x00, 0x00, 0x00, 0x03, 0x05, 0x11, 0x51]"
proof -
  have ne: "length_c coins_one \<noteq> 0"
    by (simp add: length_c_coins_one)
  have u: "isUnspent coins_one 0" "\<not> isUnspent coins_one 1" "\<not> isUnspent coins_one (Suc 0)"
    by (simp_all add: coins_one_def isUnspent_def fromOutput_def new_CoinEntry_def)
  have f: "version coins_one = 1" "height coins_one = 100" "coinbase coins_one"
    "outputs coins_one = [Some (fromOutput out51)]"
    by (simp_all add: coins_one_def)
  have s: "slot_bytes raw_compressor (Some (fromOutput out51)) = [0x05, 0x11, 0x51]"
    by (simp add: slot_bytes_def toWriter_def fromOutput_def new_CoinEntry_def compress_out51)
  show ?thesis
    unfolding toRaw_eq[OF wf_coins_one ne] length_c_coins_one
    by (simp add: u low_bits_def writeVarint_small writeU32_def spent_field.simps slots_def
        nth_js_def s f)
qed

lemmas read_simps =
  read_headers_def readVarint_def readU32_def seek_def recalc_size_def Let_def
  field_bits_def byte_bits_def byte_at_def fromReader_def skip_at_def output_at_def
  raw_compressor_def raw_decompress_def new_CoinEntry_def new_Coins_def
  cleanup_def get_def

lemma fromRaw_coins_one:
  "Coins_fromRaw raw_compressor [0x01, 0x64, 0x00, 0x00, 0x00, 0x03, 0x05, 0x11, 0x51] NULL_HASH =
     Inr \<lparr>version = 1, hash = NULL_HASH, height = 100, coinbase = True,
          outputs = [Some \<lparr>offset = 6, size_e = 3,
                            raw = Some [0x01, 0x64, 0x00, 0x00, 0x00, 0x03, 0x05, 0x11, 0x51],
                            output_e = None, spent = False\<rparr>]\<rparr>"
  by (simp add: Coins_fromRaw_def fromRaw_eq read_simps)

lemma wf_coins_unconfirmed: "wf_coins raw_compressor coins_unconfirmed"
  by (simp add: wf_coins_def coins_unconfirmed_def coins_one_def wf_entry_def fromOutput_def
      new_CoinEntry_def)

lemma toRaw_coins_unconfirmed:
  "toRaw raw_compressor coins_unconfirmed =
     Inr [0x01, 0xFF, 0xFF, 0xFF, 0xFF, 0x03, 0x05, 0x11, 0x51]"
proof -
  have l: "length_c coins_unconfirmed = 1"
    by (simp add: length_c_def coins_unconfirmed_def coins_one_def isUnspent_def fromOutput_def
        new_CoinEntry_def)
  then have ne: "length_c coins_unconfirmed \<noteq> 0"
    by simp
  have u: "isUnspent coins_unconfirmed 0" "\<not> isUnspent coins_unconfirmed 1"
    "\<not> isUnspent coins_unconfirmed (Suc 0)"
    by (simp_all add: coins_unconfirmed_def coins_one_def isUnspent_def fromOutput_def
        new_CoinEntry_def)
  have f: "version coins_unconfirmed = 1" "height coins_unconfirmed = -1"
    "coinbase coins_unconfirmed" "outputs coins_unconfirmed = [Some (fromOutput out51)]"
    by (simp_all add: coins_unconfirmed_def coins_one_def)
  have s: "slot_bytes raw_compressor (Some (fromOutput out51)) = [0x05, 0x11, 0x51]"
    by (simp add: slot_bytes_def toWriter_def fromOutput_def new_CoinEntry_def compress_out51)
  show ?thesis
    unfolding toRaw_eq[OF wf_coins_unconfirmed ne] l
    by (simp add: u low_bits_def writeVarint_small writeU32_def spent_field.simps slots_def
        nth_js_def s f)
qed

text \<open>
  C1 as stated fails for the height. The record a new \<open>Coins\<close> becomes after
  \<open>addOutput(0, out)\<close> has the constructor's height \<open>-1\<close>; \<open>toRaw\<close> writes it as the four bytes
  \<open>FF FF FF FF\<close>, and \<open>Coins.fromRaw\<close> reads the height \<open>4294967295\<close> from them.
\<close>

theorem roundtrip_loses_unconfirmed_height:
  "addOutput (\<lambda>s. False) new_Coins 0 out51 = Inr coins_unconfirmed \<and>
   height coins_unconfirmed = -1 \<and>
   toRaw raw_compressor coins_unconfirmed =
     Inr [0x01, 0xFF, 0xFF, 0xFF, 0xFF, 0x03, 0x05, 0x11, 0x51] \<and>
   Coins_fromRaw raw_compressor [0x01, 0xFF, 0xFF, 0xFF, 0xFF, 0x03, 0x05, 0x11, 0x51]
       (hash coins_unconfirmed) =
     Inr \<lparr>version = 1, hash = NULL_HASH, height = 4294967295, coinbase = True,
          outputs = [Some \<lparr>offset = 6, size_e = 3,
                            raw = Some [0x01, 0xFF, 0xFF, 0xFF, 0xFF, 0x03, 0x05, 0x11, 0x51],
                            output_e = None, spent = False\<rparr>]\<rparr>"
proof -
  have a: "addOutput (\<lambda>s. False) new_Coins 0 out51 = Inr coins_unconfirmed"
    by (simp add: addOutput_def add_def add_pad.simps new_Coins_def coins_unconfirmed_def
        coins_one_def)
  have h: "height coins_unconfirmed = -1" "hash coins_unconfirmed = NULL_HASH"
    by (simp_all add: coins_unconfirmed_def coins_one_def)
  have r: "Coins_fromRaw raw_compressor [0x01, 0xFF, 0xFF, 0xFF, 0xFF, 0x03, 0x05, 0x11, 0x51]
       NULL_HASH =
     Inr \<lparr>version = 1, hash = NULL_HASH, height = 4294967295, coinbase = True,
          outputs = [Some \<lparr>offset = 6, size_e = 3,
                            raw = Some [0x01, 0xFF, 0xFF, 0xFF, 0xFF, 0x03, 0x05, 0x11, 0x51],
                            output_e = None, spent = False\<rparr>]\<rparr>"
    by (simp add: Coins_fromRaw_def fromRaw_eq read_simps)
  show ?thesis
    using a h r toRaw_coins_unconfirmed by simp
qed

theorem roundtrip_toRaw_fromRaw_witness:
  "compressor_ok raw_compressor (\<lambda>out. out) \<and> wf_coins raw_compressor coins_one \<and>
   length_c coins_one \<noteq> 0 \<and> isUnspent coins_one 0 \<and> height coins_one = 100 \<and>
   output_of raw_compressor coins_one 0 = Inr (Some out51) \<and>
   (\<exists>buf c'. toRaw raw_compressor coins_one = Inr buf \<and>
      Coins_fromRaw raw_compressor buf (hash coins_one) = Inr c' \<and>
      version c' = 1 \<and> coinbase c' \<and> height c' = 100 \<and> isUnspent c' 0 \<and>
      output_of raw_compressor c' 0 = Inr (Some out51))"
proof -
  have ne: "length_c coins_one \<noteq> 0"
    by (simp add: length_c_coins_one)
  have u: "isUnspent coins_one 0"
    by (simp add: coins_one_def isUnspent_def fromOutput_def new_CoinEntry_def)
  have f: "version coins_one = 1" "height coins_one = 100" "coinbase coins_one"
    by (simp_all add: coins_one_def)
  have o: "output_of raw_compressor coins_one 0 = Inr (Some out51)"
    by (simp add: output_of_get get_def coins_one_def toOutput_def fromOutput_def new_CoinEntry_def)
  from roundtrip_toRaw_fromRaw[OF raw_compressor_ok wf_coins_one ne] obtain buf c' where
    r: "toRaw raw_compressor coins_one = Inr buf"
       "Coins_fromRaw raw_compressor buf (hash coins_one) = Inr c'"
       "version c' = version coins_one" "coinbase c' = coinbase coins_one"
       "0 \<le> height coins_one \<and> height coins_one < 2 ^ 32 \<longrightarrow> height c' = height coins_one"
       "\<forall>i. isUnspent c' i = isUnspent coins_one i"
       "\<forall>i. isUnspent coins_one i \<longrightarrow>
              map_sum id (map_option (\<lambda>out. out)) (output_of raw_compressor c' i) =
              map_sum id (map_option (\<lambda>out. out)) (output_of raw_compressor coins_one i)"
    by blast
  have m: "map_sum id (map_option (\<lambda>out. out)) x = x" for x :: "error + Output option"
    by (cases x) (simp_all add: option.map_ident)
  have "output_of raw_compressor c' 0 = Inr (Some out51)"
    using r(7) u o by (simp add: m)
  moreover have "height c' = 100"
    using r(5) f by simp
  ultimately show ?thesis
    using raw_compressor_ok wf_coins_one ne u f o r by auto
qed

theorem rewrite_identity_witness:
  "compressor_ok raw_compressor (\<lambda>out. out) \<and> wf_coins raw_compressor coins_one \<and>
   toRaw raw_compressor coins_one = Inr [0x01, 0x64, 0x00, 0x00, 0x00, 0x03, 0x05, 0x11, 0x51] \<and>
   rewrite raw_compressor [0x01, 0x64, 0x00, 0x00, 0x00, 0x03, 0x05, 0x11, 0x51] NULL_HASH =
     Inr [0x01, 0x64, 0x00, 0x00, 0x00, 0x03, 0x05, 0x11, 0x51]"
  using rewrite_identity[OF raw_compressor_ok wf_coins_one toRaw_coins_one, of NULL_HASH]
    raw_compressor_ok wf_coins_one toRaw_coins_one
  by blast

lemma upt_0_8: "[0..<8] = [0, 1, 2, 3, 4, 5, 6, 7]"
  by code_simp

lemmas write_simps =
  toRaw_def header_def getSize_def getSize_loop.simps getSize_e_def write_outputs.simps
  toWriter_def slice_def spent_field.simps spent_byte.simps nth_js_def length_c_def
  isUnspent_def sizeVarint_def writeU32_def

text \<open>
  C4 as stated fails for buffers that \<open>toRaw\<close> does not produce. The buffer below has the
  header code \<open>0x0B\<close> (coinbase, output 0 unspent, one byte of spent field) and the spent
  field \<open>0x00\<close>. \<open>Coins.fromRaw\<close> reads a record with one output from it, and \<open>toRaw\<close> writes
  that record with the header code \<open>0x03\<close> and no spent field.
\<close>

theorem rewrite_changes_padded_buffer:
  "Coins_fromRaw raw_compressor [0x01, 0x64, 0x00, 0x00, 0x00, 0x0B, 0x00, 0x05, 0x11, 0x51]
       NULL_HASH =
     Inr \<lparr>version = 1, hash = NULL_HASH, height = 100, coinbase = True,
          outputs = [Some \<lparr>offset = 7, size_e = 3,
                            raw = Some [0x01, 0x64, 0x00, 0x00, 0x00, 0x0B, 0x00, 0x05, 0x11, 0x51],
                            output_e = None, spent = False\<rparr>]\<rparr> \<and>
   rewrite raw_compressor [0x01, 0x64, 0x00, 0x00, 0x00, 0x0B, 0x00, 0x05, 0x11, 0x51] NULL_HASH =
     Inr [0x01, 0x64, 0x00, 0x00, 0x00, 0x03, 0x05, 0x11, 0x51]"
proof -
  have r: "Coins_fromRaw raw_compressor [0x01, 0x64, 0x00, 0x00, 0x00, 0x0B, 0x00, 0x05, 0x11, 0x51]
       NULL_HASH =
     Inr \<lparr>version = 1, hash = NULL_HASH, height = 100, coinbase = True,
          outputs = [Some \<lparr>offset = 7, size_e = 3,
                            raw = Some [0x01, 0x64, 0x00, 0x00, 0x00, 0x0B, 0x00, 0x05, 0x11, 0x51],
                            output_e = None, spent = False\<rparr>]\<rparr>"
    by (simp add: Coins_fromRaw_def fromRaw_eq read_simps upt_0_8)
  have w: "toRaw raw_compressor
      \<lparr>version = 1, hash = NULL_HASH, height = 100, coinbase = True,
          outputs = [Some \<lparr>offset = 7, size_e = 3,
                            raw = Some [0x01, 0x64, 0x00, 0x00, 0x00, 0x0B, 0x00, 0x05, 0x11, 0x51],
                            output_e = None, spent = False\<rparr>]\<rparr> =
     Inr [0x01, 0x64, 0x00, 0x00, 0x00, 0x03, 0x05, 0x11, 0x51]"
    by (simp add: write_simps writeVarint_small)
  show ?thesis
    unfolding rewrite_def r using w by simp
qed

theorem parseCoin_matches_getCoin_witness:
  "compressor_ok raw_compressor (\<lambda>out. out) \<and> wf_coins raw_compressor coins_one \<and>
   toRaw raw_compressor coins_one = Inr [0x01, 0x64, 0x00, 0x00, 0x00, 0x03, 0x05, 0x11, 0x51] \<and>
   read_headers [0x01, 0x64, 0x00, 0x00, 0x00, 0x03, 0x05, 0x11, 0x51] = Inr (1, 100, 3, 6) \<and>
   parseCoin raw_compressor [0x01, 0x64, 0x00, 0x00, 0x00, 0x03, 0x05, 0x11, 0x51] NULL_HASH 0 =
     Inr (Some \<lparr>coin_version = 1, coin_coinbase = True, coin_height = 100,
                coin_hash = NULL_HASH, coin_index = 0, coin_script = [0x51], coin_value = 5\<rparr>) \<and>
   parseCoin raw_compressor [0x01, 0x64, 0x00, 0x00, 0x00, 0x03, 0x05, 0x11, 0x51] NULL_HASH 1 =
     Inr None \<and>
   parseCoin raw_compressor [0x01, 0x64, 0x00, 0x00, 0x00, 0x03, 0x05, 0x11, 0x51] NULL_HASH 2 =
     Inr None"
proof -
  let ?buf = "[0x01, 0x64, 0x00, 0x00, 0x00, 0x03, 0x05, 0x11, 0x51] :: bytes"
  let ?c' = "\<lparr>version = 1, hash = NULL_HASH, height = 100, coinbase = True,
          outputs = [Some \<lparr>offset = 6, size_e = 3, raw = Some ?buf,
                            output_e = None, spent = False\<rparr>]\<rparr>"
  have hd: "read_headers ?buf = Inr (1, 100, 3, 6)"
    by (simp add: read_simps)
  have c0: "coin_of raw_compressor ?c' 0 =
     Inr (Some \<lparr>coin_version = 1, coin_coinbase = True, coin_height = 100,
                coin_hash = NULL_HASH, coin_index = 0, coin_script = [0x51], coin_value = 5\<rparr>)"
    by (simp add: coin_of_get toOutput_def reader_def read_simps)
  have c1: "coin_of raw_compressor ?c' 1 = Inr None"
    by (simp add: coin_of_get get_def)
  note inst = parseCoin_matches_getCoin[OF raw_compressor_ok wf_coins_one toRaw_coins_one,
      of NULL_HASH]
  have p: "parseCoin raw_compressor ?buf NULL_HASH i = coin_of raw_compressor ?c' i" for i
    using inst[of i] fromRaw_coins_one by auto
  have "2 + 8 * ((length_c coins_one + 5) div 8) \<le> 2"
    by (simp add: length_c_coins_one)
  then have p2: "parseCoin raw_compressor ?buf NULL_HASH 2 = Inr None"
    using inst[of 2] by blast
  show ?thesis
    using raw_compressor_ok wf_coins_one toRaw_coins_one hd p[of 0] p[of 1] c0 c1 p2
    by simp
qed

lemma isUnspent_coins_nine: "isUnspent coins_nine k = (k = 8)"
proof (cases "k < 8")
  case True
  then show ?thesis
    by (simp add: isUnspent_def coins_nine_def nth_append)
next
  case False
  then show ?thesis
    by (cases "k = 8")
       (simp_all add: isUnspent_def coins_nine_def nth_append fromOutput_def new_CoinEntry_def)
qed

lemma wf_coins_nine: "wf_coins raw_compressor coins_nine"
  by (auto simp: wf_coins_def coins_nine_def wf_entry_def fromOutput_def new_CoinEntry_def)

theorem spent_field_layout_witness:
  "wf_coins raw_compressor coins_nine \<and> length (outputs coins_nine) = 9 \<and>
   isUnspent coins_nine 8 \<and> \<not> isUnspent coins_nine 0 \<and> length_c coins_nine = 9 \<and>
   header coins_nine 9 1 = Inr 0 \<and>
   spent_field coins_nine 9 1 0 = [0b01000000] \<and>
   bit (spent_field coins_nine (length_c coins_nine) 1 0 ! 0) (6::nat) \<and>
   read_headers [0x01, 0x64, 0x00, 0x00, 0x00, 0x00, 0x40, 0x05, 0x11, 0x51] = Inr (1, 100, 0, 6) \<and>
   Coins_fromRaw raw_compressor [0x01, 0x64, 0x00, 0x00, 0x00, 0x00, 0x40, 0x05, 0x11, 0x51]
       NULL_HASH =
     Inr \<lparr>version = 1, hash = NULL_HASH, height = 100, coinbase = False,
          outputs = [None, None, None, None, None, None, None, None,
                     Some \<lparr>offset = 7, size_e = 3,
                           raw = Some [0x01, 0x64, 0x00, 0x00, 0x00, 0x00, 0x40, 0x05, 0x11, 0x51],
                           output_e = None, spent = False\<rparr>]\<rparr> \<and>
   toRaw raw_compressor coins_nine =
     Inr [0x01, 0x64, 0x00, 0x00, 0x00, 0x00, 0x40, 0x05, 0x11, 0x51]"
proof -
  let ?buf = "[0x01, 0x64, 0x00, 0x00, 0x00, 0x00, 0x40, 0x05, 0x11, 0x51] :: bytes"
  let ?c' = "\<lparr>version = 1, hash = NULL_HASH, height = 100, coinbase = False,
          outputs = [None, None, None, None, None, None, None, None,
                     Some \<lparr>offset = 7, size_e = 3, raw = Some ?buf,
                           output_e = None, spent = False\<rparr>]\<rparr>"
  have l9: "length (outputs coins_nine) = 9"
    by (simp add: coins_nine_def)
  have cb: "\<not> coinbase coins_nine" and f: "version coins_nine = 1" "height coins_nine = 100"
    by (simp_all add: coins_nine_def)
  have hd: "read_headers ?buf = Inr (1, 100, 0, 6)"
    by (simp add: read_simps)
  have fr: "Coins_fromRaw raw_compressor ?buf NULL_HASH = Inr ?c'"
    by (simp add: Coins_fromRaw_def fromRaw_eq read_simps upt_0_8)
  note inst = spent_field_layout[of coins_nine 1 raw_compressor ?buf 1 100 0 6 NULL_HASH ?c']
  have a: "length (outputs coins_nine) = 9 \<and> (\<forall>k<9. isUnspent coins_nine k = (k = 8))"
    by (simp add: l9 isUnspent_coins_nine)
  from inst a have len: "length_c coins_nine = 9" and h: "header coins_nine 9 1 = Inr 0"
    and sf: "spent_field coins_nine 9 1 0 = [0b01000000]"
    using cb by simp_all
  from inst have "bit (spent_field coins_nine (length_c coins_nine) 1 0 ! 0) (6::nat) =
      isUnspent coins_nine (2 + 8 * 0 + 6)"
    by simp
  then have b6: "bit (spent_field coins_nine (length_c coins_nine) 1 0 ! 0) (6::nat)"
    by (simp add: isUnspent_coins_nine)
  have ne: "wf_coins raw_compressor coins_nine \<and> length_c coins_nine \<noteq> 0"
    by (simp add: wf_coins_nine len)
  with inst obtain code where
    c: "header coins_nine (length_c coins_nine) ((length_c coins_nine + 5) div 8) = Inr code"
       "toRaw raw_compressor coins_nine =
          Inr (writeVarint (version coins_nine) @ writeU32 (height coins_nine) @ writeVarint code
               @ spent_field coins_nine (length_c coins_nine) ((length_c coins_nine + 5) div 8) 0
               @ concat (map (slot_bytes raw_compressor) (slots coins_nine (length_c coins_nine))))"
    by blast
  have code: "code = 0"
    using c(1) h by (simp add: len)
  have s: "slot_bytes raw_compressor (Some (fromOutput out51)) = [0x05, 0x11, 0x51]"
    by (simp add: slot_bytes_def toWriter_def fromOutput_def new_CoinEntry_def compress_out51)
  have up9: "[0..<9] = [0, 1, 2, 3, 4, 5, 6, 7, 8]"
    by code_simp
  have sl: "concat (map (slot_bytes raw_compressor) (slots coins_nine 9)) = [0x05, 0x11, 0x51]"
    by (simp add: slots_def coins_nine_def nth_js_def nth_append up9 s slot_bytes_None)
  have sf': "spent_field coins_nine 9 (Suc 0) 0 = [0b01000000]"
    using sf by simp
  have tr: "toRaw raw_compressor coins_nine = Inr ?buf"
    unfolding c(2) code len
    by (simp add: f sf' sl writeVarint_small writeU32_def)
  show ?thesis
    using wf_coins_nine l9 isUnspent_coins_nine[of 8] isUnspent_coins_nine[of 0] len h sf b6 hd fr tr
    by simp
qed

section \<open>Well-formed records are what the code builds\<close>

text \<open>
  Every record the functions of the file build from well-formed records is well formed:
  the records of the round-trip theorems include all that can be constructed.
\<close>

lemma wf_new_Coins: "wf_coins K new_Coins"
  by (simp add: wf_coins_def new_Coins_def)

lemma wf_fromOutput: "wf_entry K (fromOutput out)"
  by (simp add: wf_entry_def fromOutput_def new_CoinEntry_def)

lemma wf_fromCoin: "wf_entry K (fromCoin coin)"
  by (simp add: wf_entry_def fromCoin_def new_CoinEntry_def)

lemma wf_fromReader: "fromReader K data pos = Inr (entry, pos') \<Longrightarrow> wf_entry K entry"
  by (auto simp: fromReader_def skip_at_def wf_entry_def new_CoinEntry_def
      split: sum.splits option.splits)

lemma wf_toOutput: "wf_entry K entry \<Longrightarrow> toOutput K entry = Inr (out, entry') \<Longrightarrow> wf_entry K entry'"
  by (auto simp: toOutput_def reader_def output_at_def wf_entry_def
      split: option.splits sum.splits)

lemma wf_spent: "wf_entry K (entry\<lparr>spent := b\<rparr>) = wf_entry K entry"
  by (simp add: wf_entry_def split: option.splits)

lemma wf_coins_update:
  assumes "wf_coins K c" and "wf_entry K entry"
  shows "wf_coins K (c\<lparr>outputs := (outputs c)[i := Some entry]\<rparr>)"
  using assms by (auto simp: wf_coins_def dest!: set_update_subset_insert[THEN subsetD])

lemma wf_coins_subset:
  "wf_coins K c \<Longrightarrow> set (outputs c') \<subseteq> insert None (set (outputs c)) \<Longrightarrow> wf_coins K c'"
  by (auto simp: wf_coins_def)

lemma wf_cleanup: "wf_coins K c \<Longrightarrow> wf_coins K (cleanup c)"
  by (rule wf_coins_subset) (auto simp: cleanup_def dest: in_set_takeD)

lemma wf_add:
  assumes "wf_coins K c" and "wf_entry K entry" and "add c i entry = Inr c'"
  shows "wf_coins K c'"
proof -
  let ?p = "c\<lparr>outputs := outputs c @ replicate (Suc i - length (outputs c)) None\<rparr>"
  have "wf_coins K ?p"
    using assms(1) by (rule wf_coins_subset) auto
  then have "wf_coins K (?p\<lparr>outputs := (outputs ?p)[i := Some entry]\<rparr>)"
    using assms(2) by (rule wf_coins_update)
  moreover have "c' = ?p\<lparr>outputs := (outputs ?p)[i := Some entry]\<rparr>"
    using assms(3) by (auto simp: add_def add_pad_eq Let_def split: if_splits)
  ultimately show ?thesis by simp
qed

lemma wf_mutate:
  assumes "wf_coins K c" and "mutate isUnspendable m c = Inr c'"
    and "\<And>i entry. m = Add i entry \<Longrightarrow> wf_entry K entry"
  shows "wf_coins K c'"
proof (cases m)
  case (Add i entry)
  then show ?thesis
    using assms wf_add by auto
next
  case (AddOutput i out)
  then show ?thesis
    using assms(1,2) wf_add[OF assms(1) wf_fromOutput, of i out c']
    by (auto simp: addOutput_def split: if_splits)
next
  case (AddCoin coin)
  then show ?thesis
    using assms(1,2) wf_add[OF assms(1) wf_fromCoin, of "coin_index coin" coin c']
    by (auto simp: addCoin_def split: if_splits)
next
  case (Spend i)
  show ?thesis
  proof (cases "isUnspent c i")
    case True
    then obtain e where e: "get c i = Some e" "\<not> spent e"
      by (auto simp: isUnspent_iff)
    then have "wf_entry K e"
      using assms(1) by (auto simp: get_nth_js dest: wf_coins_nth_js)
    then have "wf_entry K (e\<lparr>spent := True\<rparr>)"
      by (simp add: wf_spent)
    with assms(1) have "wf_coins K (c\<lparr>outputs := (outputs c)[i := Some (e\<lparr>spent := True\<rparr>)]\<rparr>)"
      by (rule wf_coins_update)
    then show ?thesis
      using assms(2) Spend by (simp add: spend_unspent[OF e])
  next
    case False
    then show ?thesis
      using assms(1,2) Spend by (simp add: spend_noop)
  qed
next
  case (Remove i)
  have "wf_coins K (c\<lparr>outputs := (outputs c)[i := None]\<rparr>)"
    using assms(1)
    by (rule wf_coins_subset) (auto dest!: set_update_subset_insert[THEN subsetD])
  then have "wf_coins K (cleanup (c\<lparr>outputs := (outputs c)[i := None]\<rparr>))"
    by (rule wf_cleanup)
  then show ?thesis
    using assms(1,2) Remove by (auto simp: remove_def split: option.splits)
next
  case Cleanup
  then show ?thesis
    using assms(1,2) wf_cleanup by auto
qed

lemma wf_fromTX: "wf_coins K c \<Longrightarrow> wf_coins K (fromTX isUnspendable c tx h)"
  unfolding fromTX_def
  by (rule wf_cleanup) (auto simp: wf_coins_def fromTX_loop_eq wf_fromOutput split: if_splits)

lemma wf_read_slots:
  "read_slots K data pos bs = Inr (es, p) \<Longrightarrow> Some entry \<in> set es \<Longrightarrow> wf_entry K entry"
proof (induction bs arbitrary: pos es)
  case Nil
  then show ?case by simp
next
  case (Cons b bs)
  then show ?case
    by (auto split: if_splits sum.splits prod.splits dest: wf_fromReader)
qed

lemma wf_fromRaw:
  assumes "wf_coins K c" and "fromRaw K c data hsh = Inr c'"
  shows "wf_coins K c'"
proof -
  from assms(2) obtain ver h code offs p es p' where
    rd: "read_slots K data p ((code AND 2 \<noteq> 0) # (code AND 4 \<noteq> 0)
                                 # field_bits data offs (recalc_size code)) = Inr (es, p')" and
    c': "c' = cleanup (c\<lparr>hash := hsh, version := ver, height := int h,
                          coinbase := (code AND 1 \<noteq> 0), outputs := outputs c @ es\<rparr>)"
    by (auto simp add: fromRaw_eq simp del: read_slots.simps split: sum.splits prod.splits)
  have "wf_coins K (c\<lparr>hash := hsh, version := ver, height := int h,
                     coinbase := (code AND 1 \<noteq> 0), outputs := outputs c @ es\<rparr>)"
    using assms(1) wf_read_slots[OF rd] by (auto simp: wf_coins_def)
  then show ?thesis
    unfolding c' by (rule wf_cleanup)
qed

lemma wf_getOutput:
  assumes "wf_coins K c" and "getOutput K c i = Inr (out, c')"
  shows "wf_coins K c'"
proof (cases "get c i")
  case None
  then show ?thesis
    using assms by (simp add: getOutput_def)
next
  case (Some e)
  then have wfe: "wf_entry K e"
    using assms(1) by (auto simp: get_nth_js dest: wf_coins_nth_js)
  from assms(2) Some obtain o' e' where
    t: "toOutput K e = Inr (o', e')" and c': "c' = c\<lparr>outputs := (outputs c)[i := Some e']\<rparr>"
    by (auto simp: getOutput_def split: sum.splits prod.splits)
  from wf_toOutput[OF wfe t] assms(1) show ?thesis
    unfolding c' by (intro wf_coins_update)
qed

lemma wf_getCoin:
  assumes "wf_coins K c" and "getCoin K c i = Inr (coin, c')"
  shows "wf_coins K c'"
proof (cases "get c i")
  case None
  then show ?thesis
    using assms by (simp add: getCoin_def)
next
  case (Some e)
  then have wfe: "wf_entry K e"
    using assms(1) by (auto simp: get_nth_js dest: wf_coins_nth_js)
  from assms(2) Some obtain o' e' where
    t: "toOutput K e = Inr (o', e')" and c': "c' = c\<lparr>outputs := (outputs c)[i := Some e']\<rparr>"
    by (auto simp: getCoin_def toCoin_def split: sum.splits prod.splits)
  from wf_toOutput[OF wfe t] assms(1) show ?thesis
    unfolding c' by (intro wf_coins_update)
qed

section \<open>The capacity of the writer\<close>

text \<open>
  \<open>getSize\<close> returns the number of bytes \<open>toRaw\<close> writes: the writer allocated with \<open>total\<close>
  bytes is filled exactly.
\<close>

lemma getSize_loop_eq:
  assumes "compressor_ok K canon" and "wf_coins K c"
  shows "getSize_loop K c len i tot =
           Inr (tot + length (concat (map (slot_bytes K) (map (nth_js (outputs c)) [i..<len]))))"
  using assms
proof (induction K c len i tot rule: getSize_loop.induct)
  case (1 K c len i tot)
  show ?case
  proof (cases "i < len")
    case False
    then show ?thesis
      by (subst getSize_loop.simps) simp
  next
    case True
    then have upt: "[i..<len] = i # [i + 1..<len]"
      by (simp add: upt_conv_Cons)
    show ?thesis
    proof (cases "nth_js (outputs c) i")
      case None
      then show ?thesis
        using True "1.IH"(1)[OF True None] "1.prems"
        by (subst getSize_loop.simps) (simp add: upt slot_bytes_None)
    next
      case (Some e)
      show ?thesis
      proof (cases "spent e")
        case True
        then show ?thesis
          using \<open>i < len\<close> "1.IH"(2)[OF \<open>i < len\<close> Some True] "1.prems" Some
          by (subst getSize_loop.simps) (simp add: upt slot_bytes_spent)
      next
        case False
        have n: "getSize_e K e = Inr (length (slot_bytes K (Some e)))"
          using "1.prems"(1) wf_coins_nth_js[OF "1.prems"(2) Some] False by (rule entry_bytes(3))
        show ?thesis
          using \<open>i < len\<close> "1.IH"(3)[OF \<open>i < len\<close> Some False n] "1.prems" Some False n
          by (subst getSize_loop.simps) (simp add: upt)
      qed
    qed
  qed
qed

lemma getSize_is_length:
  assumes "compressor_ok K canon" and "wf_coins K c" and "toRaw K c = Inr buf"
    and "header c (length_c c) ((length_c c + 5) div 8) = Inr code"
  shows "getSize K c (length_c c) ((length_c c + 5) div 8) code = Inr (length buf)"
proof -
  have ne: "length_c c \<noteq> 0"
    using assms(3) by (rule toRaw_Inr_length)
  have code: "code = 8 * (if isUnspent c 0 \<or> isUnspent c 1 then (length_c c + 5) div 8
                          else (length_c c + 5) div 8 - 1)
                     + low_bits (coinbase c) (isUnspent c 0) (isUnspent c 1)"
    using assms(4) header_ok[OF ne] by simp
  have "buf = writeVarint (version c) @ writeU32 (height c) @ writeVarint code
          @ spent_field c (length_c c) ((length_c c + 5) div 8) 0
          @ concat (map (slot_bytes K) (slots c (length_c c)))"
    using assms(3) unfolding toRaw_eq[OF assms(2) ne] code by simp
  then show ?thesis
    by (simp add: getSize_def getSize_loop_eq[OF assms(1,2)] sizeVarint_def length_writeU32
        spent_field_length slots_def)
qed

section \<open>A coinbase record of nine slots\<close>

lemma isUnspent_coins_nine_coinbase: "isUnspent coins_nine_coinbase k = (k = 8)"
proof -
  have "isUnspent coins_nine_coinbase k = isUnspent coins_nine k"
    by (simp add: isUnspent_def coins_nine_coinbase_def)
  then show ?thesis
    by (simp add: isUnspent_coins_nine)
qed

lemma wf_coins_nine_coinbase: "wf_coins raw_compressor coins_nine_coinbase"
  using wf_coins_nine by (simp add: wf_coins_def coins_nine_coinbase_def)

text \<open>
  A coinbase record of nine slots whose only unspent output is at index 8 is serialized
  with header code 1, not 0: the first bit of the code is the coinbase flag.
\<close>

theorem coinbase_nine_outputs_code:
  "length (outputs coins_nine_coinbase) = 9 \<and>
   \<not> isUnspent coins_nine_coinbase 0 \<and> \<not> isUnspent coins_nine_coinbase 1 \<and>
   \<not> isUnspent coins_nine_coinbase 2 \<and> \<not> isUnspent coins_nine_coinbase 3 \<and>
   \<not> isUnspent coins_nine_coinbase 4 \<and> \<not> isUnspent coins_nine_coinbase 5 \<and>
   \<not> isUnspent coins_nine_coinbase 6 \<and> \<not> isUnspent coins_nine_coinbase 7 \<and>
   isUnspent coins_nine_coinbase 8 \<and>
   length_c coins_nine_coinbase = 9 \<and>
   header coins_nine_coinbase 9 1 = Inr 1 \<and>
   header coins_nine_coinbase 9 1 \<noteq> Inr 0 \<and>
   spent_field coins_nine_coinbase 9 1 0 = [0b01000000] \<and>
   toRaw raw_compressor coins_nine_coinbase =
     Inr [0x01, 0x64, 0x00, 0x00, 0x00, 0x01, 0x40, 0x05, 0x11, 0x51]"
proof -
  have l9: "length (outputs coins_nine_coinbase) = 9"
    by (simp add: coins_nine_coinbase_def coins_nine_def)
  have f: "coinbase coins_nine_coinbase" "version coins_nine_coinbase = 1"
      "height coins_nine_coinbase = 100"
    by (simp_all add: coins_nine_coinbase_def coins_nine_def)
  have u: "\<And>k. k < 9 \<Longrightarrow> isUnspent coins_nine_coinbase k = (k = 8)"
    by (simp add: isUnspent_coins_nine_coinbase)
  have len: "length_c coins_nine_coinbase = 9"
    using l9 u by (rule nine_length_c)
  have h: "header coins_nine_coinbase 9 1 = Inr 1"
    using nine_header[OF l9 u] f(1) by simp
  have sf: "spent_field coins_nine_coinbase 9 1 0 = [0b01000000]"
    using l9 u by (rule nine_spent_field)
  have ne: "length_c coins_nine_coinbase \<noteq> 0"
    by (simp add: len)
  define code where
    "code = 8 * (if isUnspent coins_nine_coinbase 0 \<or> isUnspent coins_nine_coinbase 1
                 then (length_c coins_nine_coinbase + 5) div 8
                 else (length_c coins_nine_coinbase + 5) div 8 - 1)
            + low_bits (coinbase coins_nine_coinbase) (isUnspent coins_nine_coinbase 0)
                (isUnspent coins_nine_coinbase 1)"
  have "header coins_nine_coinbase 9 1 = Inr code"
    using header_ok[OF ne] by (simp add: len code_def)
  then have code: "code = 1"
    using h by simp
  have s: "slot_bytes raw_compressor (Some (fromOutput out51)) = [0x05, 0x11, 0x51]"
    by (simp add: slot_bytes_def toWriter_def fromOutput_def new_CoinEntry_def compress_out51)
  have up9: "[0..<9] = [0, 1, 2, 3, 4, 5, 6, 7, 8]"
    by code_simp
  have sl: "concat (map (slot_bytes raw_compressor) (slots coins_nine_coinbase 9)) =
              [0x05, 0x11, 0x51]"
    by (simp add: slots_def coins_nine_coinbase_def coins_nine_def nth_js_def nth_append up9 s
        slot_bytes_None)
  have sf': "spent_field coins_nine_coinbase 9 (Suc 0) 0 = [0b01000000]"
    using sf by simp
  have tr: "toRaw raw_compressor coins_nine_coinbase =
              Inr [0x01, 0x64, 0x00, 0x00, 0x00, 0x01, 0x40, 0x05, 0x11, 0x51]"
    unfolding toRaw_eq[OF wf_coins_nine_coinbase ne] code_def[symmetric]
    unfolding code len
    by (simp add: f sf' sl writeVarint_small writeU32_def)
  show ?thesis
    using l9 isUnspent_coins_nine_coinbase len h sf tr by simp
qed

section \<open>The offset correction of the header code\<close>

lemma low_bits_sum:
  "low_bits cb f s = (if cb then 1 else 0) + (if f then 2 else 0) + (if s then 4 else 0)"
  by (simp add: low_bits_def)

lemma header_returns:
  assumes "len \<noteq> 0" and "isUnspent c 0 \<or> isUnspent c 1 \<or> sz \<noteq> 0"
  shows "header c len sz =
           Inr (8 * (if isUnspent c 0 \<or> isUnspent c 1 then sz else sz - 1)
                + (if coinbase c then 1 else 0) + (if isUnspent c 0 then 2 else 0)
                + (if isUnspent c 1 then 4 else 0))"
  using assms unfolding header_Inr low_bits_sum by simp

lemma length_c_low_spent:
  assumes "length_c c \<noteq> 0" and "\<not> isUnspent c 0" and "\<not> isUnspent c 1"
  shows "3 \<le> length_c c"
proof -
  have "isUnspent c (length_c c - 1)"
    using assms(1) by (rule length_c_last)
  then show ?thesis
    using assms by (cases "length_c c = 1"; cases "length_c c = 2") auto
qed

lemma toRaw_header:
  assumes "wf_coins K c" and "length_c c \<noteq> 0"
  shows "\<exists>buf code offs.
           toRaw K c = Inr buf \<and>
           header c (length_c c) ((length_c c + 5) div 8) = Inr code \<and>
           read_headers buf = Inr (version c, nat (take_bit 32 (height c)), code, offs) \<and>
           buf = writeVarint (version c) @ writeU32 (height c) @ writeVarint code @ drop offs buf \<and>
           length (drop offs buf) \<ge> (length_c c + 5) div 8"
proof -
  define code where
    "code = 8 * (if isUnspent c 0 \<or> isUnspent c 1 then (length_c c + 5) div 8
                 else (length_c c + 5) div 8 - 1)
            + low_bits (coinbase c) (isUnspent c 0) (isUnspent c 1)"
  define rest where
    "rest = spent_field c (length_c c) ((length_c c + 5) div 8) 0
            @ concat (map (slot_bytes K) (slots c (length_c c)))"
  define buf where
    "buf = writeVarint (version c) @ writeU32 (height c) @ writeVarint code @ rest"
  define offs where "offs = length (writeVarint (version c)) + 4 + length (writeVarint code)"
  have t: "toRaw K c = Inr buf"
    unfolding buf_def rest_def code_def by (rule toRaw_eq[OF assms])
  have h: "header c (length_c c) ((length_c c + 5) div 8) = Inr code"
    unfolding code_def by (rule header_ok[OF assms(2)])
  have r: "read_headers buf = Inr (version c, nat (take_bit 32 (height c)), code, offs)"
    unfolding buf_def offs_def by (rule read_headers_eq)
  have d: "drop offs buf = rest"
    by (simp add: buf_def offs_def length_writeU32)
  have l: "length rest \<ge> (length_c c + 5) div 8"
    by (simp add: rest_def spent_field_length)
  show ?thesis
    using t h r d l buf_def by (intro exI[of _ buf] exI[of _ code] exI[of _ offs]) simp
qed

text \<open>
  C3. The offset correction of the header code. \<open>header\<close> returns a code whenever the
  record is not fully spent and output 0 or output 1 is unspent or the size \<open>S\<close> of the spent
  field is not zero; with neither unspent and \<open>S = 0\<close> it fails on its second assertion.
  The code returned is \<open>8 S\<close>, or \<open>8 (S - 1)\<close> if neither output 0 nor output 1 is unspent,
  plus the three flag bits; so its high part \<open>code div 8\<close> is \<open>S\<close>, or \<open>S - 1\<close>, and bits 1 and 2
  are clear exactly when neither is unspent. The size recalculated on reading is
  \<open>code div 8\<close>, plus one exactly when \<open>code AND 6 = 0\<close>, and equals \<open>S\<close>. In \<open>toRaw\<close>, where the
  length is \<open>length()\<close> and \<open>S = floor((length() + 5) / 8)\<close>, \<open>header\<close> returns a code for every
  record that is not fully spent, \<open>S\<close> is at least 1 when neither low output is unspent, and
  the header read back from the buffer written carries that code, from which the reader
  recovers \<open>S\<close>.
\<close>

theorem header_offset_correction:
  "(header c len sz = Inr code \<longrightarrow>
      code div 8 = (if isUnspent c 0 \<or> isUnspent c 1 then sz else sz - 1) \<and>
      (\<not> isUnspent c 0 \<and> \<not> isUnspent c 1 \<longrightarrow> sz \<noteq> 0) \<and>
      (code AND 6 = 0) = (\<not> isUnspent c 0 \<and> \<not> isUnspent c 1) \<and>
      recalc_size code = code div 8 + (if code AND 6 = 0 then 1 else 0) \<and>
      recalc_size code = sz) \<and>
   (len \<noteq> 0 \<and> \<not> isUnspent c 0 \<and> \<not> isUnspent c 1 \<and> sz = 0 \<longrightarrow>
      header c len sz = Inl (AssertionError [])) \<and>
   (len \<noteq> 0 \<and> (isUnspent c 0 \<or> isUnspent c 1 \<or> sz \<noteq> 0) \<longrightarrow>
      header c len sz =
        Inr (8 * (if isUnspent c 0 \<or> isUnspent c 1 then sz else sz - 1)
             + (if coinbase c then 1 else 0) + (if isUnspent c 0 then 2 else 0)
             + (if isUnspent c 1 then 4 else 0))) \<and>
   (length_c c \<noteq> 0 \<longrightarrow>
      (\<not> isUnspent c 0 \<and> \<not> isUnspent c 1 \<longrightarrow> 1 \<le> (length_c c + 5) div 8) \<and>
      (\<exists>code'. header c (length_c c) ((length_c c + 5) div 8) = Inr code' \<and>
         code' div 8 = (if isUnspent c 0 \<or> isUnspent c 1 then (length_c c + 5) div 8
                        else (length_c c + 5) div 8 - 1) \<and>
         recalc_size code' = (length_c c + 5) div 8)) \<and>
   (wf_coins K c \<and> length_c c \<noteq> 0 \<longrightarrow>
      (\<exists>buf code' offs.
         toRaw K c = Inr buf \<and>
         header c (length_c c) ((length_c c + 5) div 8) = Inr code' \<and>
         read_headers buf = Inr (version c, nat (take_bit 32 (height c)), code', offs) \<and>
         recalc_size code' = (length_c c + 5) div 8))"
proof (intro conjI impI)
  assume h: "header c len sz = Inr code"
  let ?k = "if isUnspent c 0 \<or> isUnspent c 1 then sz else sz - 1"
  have code: "code = 8 * ?k + low_bits (coinbase c) (isUnspent c 0) (isUnspent c 1)"
    and nz: "isUnspent c 0 \<or> isUnspent c 1 \<or> sz \<noteq> 0"
    using h unfolding header_Inr by blast+
  show "code div 8 = ?k"
    by (rule code_and(5)[OF code])
  show "(code AND 6 = 0) = (\<not> isUnspent c 0 \<and> \<not> isUnspent c 1)"
    by (rule code_and(4)[OF code])
  show "recalc_size code = code div 8 + (if code AND 6 = 0 then 1 else 0)"
    by (simp add: recalc_size_def Let_def)
  show "recalc_size code = sz"
    by (rule header_recalc[OF h])
  show "sz \<noteq> 0" if "\<not> isUnspent c 0 \<and> \<not> isUnspent c 1"
    using that nz by blast
next
  assume "len \<noteq> 0 \<and> \<not> isUnspent c 0 \<and> \<not> isUnspent c 1 \<and> sz = 0"
  then show "header c len sz = Inl (AssertionError [])"
    by (simp add: header_def)
next
  assume "len \<noteq> 0 \<and> (isUnspent c 0 \<or> isUnspent c 1 \<or> sz \<noteq> 0)"
  then show "header c len sz =
        Inr (8 * (if isUnspent c 0 \<or> isUnspent c 1 then sz else sz - 1)
             + (if coinbase c then 1 else 0) + (if isUnspent c 0 then 2 else 0)
             + (if isUnspent c 1 then 4 else 0))"
    using header_returns by blast
next
  assume ne: "length_c c \<noteq> 0"
  show "1 \<le> (length_c c + 5) div 8" if "\<not> isUnspent c 0 \<and> \<not> isUnspent c 1"
    using length_c_low_spent[OF ne] that by auto
  define code' where
    "code' = 8 * (if isUnspent c 0 \<or> isUnspent c 1 then (length_c c + 5) div 8
                  else (length_c c + 5) div 8 - 1)
             + low_bits (coinbase c) (isUnspent c 0) (isUnspent c 1)"
  have h: "header c (length_c c) ((length_c c + 5) div 8) = Inr code'"
    unfolding code'_def by (rule header_ok[OF ne])
  have "code' div 8 = (if isUnspent c 0 \<or> isUnspent c 1 then (length_c c + 5) div 8
                        else (length_c c + 5) div 8 - 1)"
    by (rule code_and(5)[OF code'_def])
  moreover have "recalc_size code' = (length_c c + 5) div 8"
    by (rule header_recalc[OF h])
  ultimately show "\<exists>code'. header c (length_c c) ((length_c c + 5) div 8) = Inr code' \<and>
         code' div 8 = (if isUnspent c 0 \<or> isUnspent c 1 then (length_c c + 5) div 8
                        else (length_c c + 5) div 8 - 1) \<and>
         recalc_size code' = (length_c c + 5) div 8"
    using h by blast
next
  assume a: "wf_coins K c \<and> length_c c \<noteq> 0"
  then obtain buf code' offs where
    t: "toRaw K c = Inr buf"
       "header c (length_c c) ((length_c c + 5) div 8) = Inr code'"
       "read_headers buf = Inr (version c, nat (take_bit 32 (height c)), code', offs)"
    using toRaw_header[of K c] by blast
  have "recalc_size code' = (length_c c + 5) div 8"
    by (rule header_recalc[OF t(2)])
  with t show "\<exists>buf code' offs.
         toRaw K c = Inr buf \<and>
         header c (length_c c) ((length_c c + 5) div 8) = Inr code' \<and>
         read_headers buf = Inr (version c, nat (take_bit 32 (height c)), code', offs) \<and>
         recalc_size code' = (length_c c + 5) div 8"
    by blast
qed

lemma isUnspent_coins_eleven: "isUnspent coins_eleven k = (k = 10)"
proof (cases "k < 10")
  case True
  then show ?thesis
    by (simp add: isUnspent_def coins_eleven_def nth_append)
next
  case False
  then show ?thesis
    by (cases "k = 10")
       (simp_all add: isUnspent_def coins_eleven_def nth_append fromOutput_def new_CoinEntry_def)
qed

lemma length_c_coins_eleven: "length_c coins_eleven = 11"
proof -
  have "10 < length_c coins_eleven"
    by (rule isUnspent_lt_length_c) (simp add: isUnspent_coins_eleven)
  moreover have "length (outputs coins_eleven) = 11"
    by (simp add: coins_eleven_def)
  ultimately show ?thesis
    using length_c_le[of coins_eleven] by simp
qed

lemma wf_coins_eleven: "wf_coins raw_compressor coins_eleven"
  by (auto simp: wf_coins_def coins_eleven_def wf_entry_def fromOutput_def new_CoinEntry_def)

theorem header_offset_correction_witness:
  "header coins_third 3 1 = Inr 0 \<and> \<not> isUnspent coins_third 0 \<and> \<not> isUnspent coins_third 1 \<and>
   recalc_size 0 = 1 \<and> header coins_third 3 0 = Inl (AssertionError []) \<and>
   length_c coins_eleven = 11 \<and> (length_c coins_eleven + 5) div 8 = 2 \<and>
   \<not> isUnspent coins_eleven 0 \<and> \<not> isUnspent coins_eleven 1 \<and> wf_coins raw_compressor coins_eleven \<and>
   header coins_eleven 11 2 = Inr 8 \<and> recalc_size 8 = 2 \<and>
   header coins_one 1 0 = Inr 3 \<and> recalc_size 3 = 0 \<and>
   (\<exists>buf offs. toRaw raw_compressor coins_eleven = Inr buf \<and>
                read_headers buf = Inr (1, 100, 8, offs))"
proof -
  have u: "\<not> isUnspent coins_third 0" "\<not> isUnspent coins_third 1"
    by (simp_all add: isUnspent_def coins_third_def)
  have cb: "\<not> coinbase coins_third" "\<not> coinbase coins_eleven" "coinbase coins_one"
    by (simp_all add: coins_third_def coins_eleven_def coins_one_def)
  have three: "(3::nat) \<noteq> 0" "(1::nat) \<noteq> 0" "(11::nat) \<noteq> 0" "(2::nat) \<noteq> 0"
    by simp_all
  note i3 = header_offset_correction[of coins_third 3 1 0 raw_compressor]
  from i3 three have "header coins_third 3 1 =
        Inr (8 * (if isUnspent coins_third 0 \<or> isUnspent coins_third 1 then 1 else 1 - 1)
             + (if coinbase coins_third then 1 else 0) + (if isUnspent coins_third 0 then 2 else 0)
             + (if isUnspent coins_third 1 then 4 else 0))"
    by blast
  then have h: "header coins_third 3 1 = Inr 0"
    by (simp only: u cb if_False simp_thms diff_self_eq_0 mult_0_right add_0_right)
  have r: "recalc_size 0 = 1"
    using i3 h by blast
  have a: "header coins_third 3 0 = Inl (AssertionError [])"
    using header_offset_correction[of coins_third 3 0 0 raw_compressor] u three by blast
  have e: "\<not> isUnspent coins_eleven 0" "\<not> isUnspent coins_eleven 1"
    by (simp_all add: isUnspent_coins_eleven)
  have l: "length_c coins_eleven = 11"
    by (rule length_c_coins_eleven)
  have l2: "(length_c coins_eleven + 5) div 8 = 2"
    by (simp add: l)
  note i11 = header_offset_correction[of coins_eleven 11 2 8 raw_compressor]
  from i11 three have "header coins_eleven 11 2 =
        Inr (8 * (if isUnspent coins_eleven 0 \<or> isUnspent coins_eleven 1 then 2 else 2 - 1)
             + (if coinbase coins_eleven then 1 else 0) + (if isUnspent coins_eleven 0 then 2 else 0)
             + (if isUnspent coins_eleven 1 then 4 else 0))"
    by blast
  then have h11: "header coins_eleven 11 2 = Inr 8"
    using e cb by simp
  have r8: "recalc_size 8 = 2"
    using i11 h11 by blast
  have o: "isUnspent coins_one 0" "\<not> isUnspent coins_one 1"
    by (simp_all add: coins_one_def isUnspent_def fromOutput_def new_CoinEntry_def)
  note i1 = header_offset_correction[of coins_one 1 0 3 raw_compressor]
  from i1 three o have "header coins_one 1 0 =
        Inr (8 * (if isUnspent coins_one 0 \<or> isUnspent coins_one 1 then 0 else 0 - 1)
             + (if coinbase coins_one then 1 else 0) + (if isUnspent coins_one 0 then 2 else 0)
             + (if isUnspent coins_one 1 then 4 else 0))"
    by blast
  then have h1: "header coins_one 1 0 = Inr 3"
    using o cb by simp
  have r3: "recalc_size 3 = 0"
    using i1 h1 by blast
  have w: "wf_coins raw_compressor coins_eleven \<and> length_c coins_eleven \<noteq> 0"
    by (simp add: wf_coins_eleven l)
  with i11 obtain buf code' offs where
    t: "toRaw raw_compressor coins_eleven = Inr buf"
       "header coins_eleven (length_c coins_eleven) ((length_c coins_eleven + 5) div 8) = Inr code'"
       "read_headers buf = Inr (version coins_eleven, nat (take_bit 32 (height coins_eleven)), code', offs)"
    by blast
  have "code' = 8"
    using t(2) h11 unfolding l2 l by simp
  moreover have "version coins_eleven = 1" "nat (take_bit 32 (height coins_eleven)) = 100"
    by (simp_all add: coins_eleven_def take_bit_eq_mod)
  ultimately have "toRaw raw_compressor coins_eleven = Inr buf \<and>
                read_headers buf = Inr (1, 100, 8, offs)"
    using t(1,3) by simp
  then have ex: "\<exists>buf offs. toRaw raw_compressor coins_eleven = Inr buf \<and>
                read_headers buf = Inr (1, 100, 8, offs)"
    by blast
  show ?thesis
    using h u r a l l2 e wf_coins_eleven h11 r8 h1 r3 ex by (intro conjI)
qed

section \<open>What \<open>spend\<close> and \<open>remove\<close> change\<close>

lemma remove_absent: "\<not> has c x \<Longrightarrow> remove c x = (None, c)"
  by (simp add: remove_def has_get)

lemma remove_present:
  "has c x \<Longrightarrow> remove c x = (get c x, cleanup (c\<lparr>outputs := (outputs c)[x := None]\<rparr>))"
  by (auto simp: remove_def has_get)

lemma get_update_None:
  "get (c\<lparr>outputs := (outputs c)[x := None]\<rparr>) k = (if k = x then None else get c k)"
  by (simp add: get_def)

lemma cleanup_prefix:
  "outputs (cleanup c) = take (length (outputs (cleanup c))) (outputs c)"
  by (simp add: cleanup_def cleanup_loop_le)

lemma cleanup_dropped:
  assumes "length (outputs (cleanup c)) \<le> k" and "k < length (outputs c)"
  shows "outputs c ! k = None"
  using assms unfolding length_cleanup by (rule cleanup_loop_gaps)

lemma cleanup_fields:
  "version (cleanup c) = version c" "height (cleanup c) = height c"
  "coinbase (cleanup c) = coinbase c" "hash (cleanup c) = hash c"
  by (simp_all add: cleanup_def)

lemma length_cleanup_le: "length (outputs (cleanup c)) \<le> length (outputs c)"
  unfolding length_cleanup by (rule cleanup_loop_le)

text \<open>
  C10. \<open>spend\<close> on an unspent entry changes the \<open>spent\<close> flag of that entry and nothing
  else: version, height, coinbase, hash and the length of \<open>outputs\<close> stay, every other slot
  stays, and the marked entry keeps its other fields; nothing is trimmed. \<open>remove\<close> on an
  occupied slot returns the entry, sets the slot to \<open>null\<close> and then trims the trailing
  gaps: version, height, coinbase and hash stay, the slot removed reads as absent, every
  other index reads as before, \<open>outputs\<close> afterwards is a prefix of the array with the slot
  set to \<open>null\<close>, every slot dropped was \<open>null\<close>, and the last slot kept holds an entry. On an
  index that holds no entry \<open>remove\<close> changes nothing.
\<close>

theorem spend_frame:
  assumes "isUnspent c i"
  shows "\<exists>e. outputs c ! i = Some e \<and>
           snd (spend c i) = c\<lparr>outputs := (outputs c)[i := Some (e\<lparr>spent := True\<rparr>)]\<rparr> \<and>
           version (snd (spend c i)) = version c \<and> height (snd (spend c i)) = height c \<and>
           coinbase (snd (spend c i)) = coinbase c \<and> hash (snd (spend c i)) = hash c \<and>
           length (outputs (snd (spend c i))) = length (outputs c) \<and>
           (\<forall>j. j \<noteq> i \<longrightarrow> outputs (snd (spend c i)) ! j = outputs c ! j) \<and>
           (\<forall>x. has c x \<longrightarrow>
              remove c x = (get c x, cleanup (c\<lparr>outputs := (outputs c)[x := None]\<rparr>)) \<and>
              version (snd (remove c x)) = version c \<and> height (snd (remove c x)) = height c \<and>
              coinbase (snd (remove c x)) = coinbase c \<and> hash (snd (remove c x)) = hash c \<and>
              get (snd (remove c x)) x = None \<and>
              (\<forall>k. k \<noteq> x \<longrightarrow> get (snd (remove c x)) k = get c k) \<and>
              length (outputs (snd (remove c x))) \<le> length (outputs c) \<and>
              outputs (snd (remove c x)) =
                take (length (outputs (snd (remove c x)))) ((outputs c)[x := None]) \<and>
              (\<forall>k. length (outputs (snd (remove c x))) \<le> k \<and> k < length (outputs c) \<longrightarrow>
                   (outputs c)[x := None] ! k = None) \<and>
              no_trailing_gap (snd (remove c x))) \<and>
           (\<forall>x. \<not> has c x \<longrightarrow> remove c x = (None, c))"
proof -
  from assms obtain e where e: "get c i = Some e" "\<not> spent e"
    by (auto simp: isUnspent_iff)
  have i: "i < length (outputs c)" and oi: "outputs c ! i = Some e"
    using e(1) by (simp_all add: get_Some_iff)
  have sp: "snd (spend c i) = c\<lparr>outputs := (outputs c)[i := Some (e\<lparr>spent := True\<rparr>)]\<rparr>"
    by (simp add: spend_unspent[OF e])
  have s: "version (snd (spend c i)) = version c" "height (snd (spend c i)) = height c"
    "coinbase (snd (spend c i)) = coinbase c" "hash (snd (spend c i)) = hash c"
    "length (outputs (snd (spend c i))) = length (outputs c)"
    "\<forall>j. j \<noteq> i \<longrightarrow> outputs (snd (spend c i)) ! j = outputs c ! j"
    unfolding sp by simp_all
  have r: "\<forall>x. has c x \<longrightarrow>
              remove c x = (get c x, cleanup (c\<lparr>outputs := (outputs c)[x := None]\<rparr>)) \<and>
              version (snd (remove c x)) = version c \<and> height (snd (remove c x)) = height c \<and>
              coinbase (snd (remove c x)) = coinbase c \<and> hash (snd (remove c x)) = hash c \<and>
              get (snd (remove c x)) x = None \<and>
              (\<forall>k. k \<noteq> x \<longrightarrow> get (snd (remove c x)) k = get c k) \<and>
              length (outputs (snd (remove c x))) \<le> length (outputs c) \<and>
              outputs (snd (remove c x)) =
                take (length (outputs (snd (remove c x)))) ((outputs c)[x := None]) \<and>
              (\<forall>k. length (outputs (snd (remove c x))) \<le> k \<and> k < length (outputs c) \<longrightarrow>
                   (outputs c)[x := None] ! k = None) \<and>
              no_trailing_gap (snd (remove c x))"
  proof (intro allI impI)
    fix x assume x: "has c x"
    define n where "n = c\<lparr>outputs := (outputs c)[x := None]\<rparr>"
    have rm: "remove c x = (get c x, cleanup n)"
      unfolding n_def using x by (rule remove_present)
    then have sn: "snd (remove c x) = cleanup n"
      by simp
    have on: "outputs n = (outputs c)[x := None]"
      and fn: "version n = version c" "height n = height c" "coinbase n = coinbase c"
        "hash n = hash c"
      by (simp_all add: n_def)
    have gn: "get n k = (if k = x then None else get c k)" for k
      unfolding n_def by (rule get_update_None)
    have 1: "version (cleanup n) = version c" "height (cleanup n) = height c"
      "coinbase (cleanup n) = coinbase c" "hash (cleanup n) = hash c"
      by (simp_all add: cleanup_fields fn)
    have 2: "get (cleanup n) x = None"
      unfolding get_cleanup gn by simp
    have 3: "\<forall>k. k \<noteq> x \<longrightarrow> get (cleanup n) k = get c k"
      unfolding get_cleanup gn by simp
    have 4: "length (outputs (cleanup n)) \<le> length (outputs c)"
      using length_cleanup_le[of n] by (simp add: on)
    have 5: "outputs (cleanup n) = take (length (outputs (cleanup n))) ((outputs c)[x := None])"
      using cleanup_prefix[of n] by (simp only: on)
    have 6: "\<forall>k. length (outputs (cleanup n)) \<le> k \<and> k < length (outputs c) \<longrightarrow>
                 (outputs c)[x := None] ! k = None"
    proof (intro allI impI)
      fix k assume k: "length (outputs (cleanup n)) \<le> k \<and> k < length (outputs c)"
      then have "k < length (outputs n)"
        by (simp add: on)
      with k have "outputs n ! k = None"
        by (intro cleanup_dropped) simp_all
      then show "(outputs c)[x := None] ! k = None"
        by (simp only: on)
    qed
    have 7: "no_trailing_gap (cleanup n)"
      by (rule no_trailing_gap_cleanup)
    show "remove c x = (get c x, cleanup (c\<lparr>outputs := (outputs c)[x := None]\<rparr>)) \<and>
              version (snd (remove c x)) = version c \<and> height (snd (remove c x)) = height c \<and>
              coinbase (snd (remove c x)) = coinbase c \<and> hash (snd (remove c x)) = hash c \<and>
              get (snd (remove c x)) x = None \<and>
              (\<forall>k. k \<noteq> x \<longrightarrow> get (snd (remove c x)) k = get c k) \<and>
              length (outputs (snd (remove c x))) \<le> length (outputs c) \<and>
              outputs (snd (remove c x)) =
                take (length (outputs (snd (remove c x)))) ((outputs c)[x := None]) \<and>
              (\<forall>k. length (outputs (snd (remove c x))) \<le> k \<and> k < length (outputs c) \<longrightarrow>
                   (outputs c)[x := None] ! k = None) \<and>
              no_trailing_gap (snd (remove c x))"
      unfolding sn n_def[symmetric] by (intro conjI rm 1 2 3 4 5 6 7)
  qed
  have n: "\<forall>x. \<not> has c x \<longrightarrow> remove c x = (None, c)"
    by (intro allI impI) (rule remove_absent)
  show ?thesis
    by (rule exI[of _ e]) (intro conjI oi sp s r n)
qed

theorem spend_frame_witness:
  "isUnspent coins_gap 2 \<and> has coins_gap 2 \<and> \<not> has coins_gap 1 \<and>
   outputs (snd (spend coins_gap 2)) =
     [Some (fromOutput out51), None, Some (fromOutput out51\<lparr>spent := True\<rparr>)] \<and>
   length (outputs (snd (spend coins_gap 2))) = 3 \<and>
   remove coins_gap 2 =
     (Some (fromOutput out51), coins_gap\<lparr>outputs := [Some (fromOutput out51)]\<rparr>) \<and>
   length (outputs (snd (remove coins_gap 2))) = 1 \<and>
   get (snd (remove coins_gap 2)) 0 = get coins_gap 0 \<and>
   no_trailing_gap (snd (remove coins_gap 2)) \<and>
   remove coins_gap 1 = (None, coins_gap)"
proof -
  have a: "isUnspent coins_gap 2"
    by (simp add: isUnspent_def coins_gap_def fromOutput_def new_CoinEntry_def)
  have h: "has coins_gap 2" "\<not> has coins_gap 1"
    by (simp_all add: has_def coins_gap_def)
  have g: "get coins_gap 2 = Some (fromOutput out51)"
    by (simp add: get_def coins_gap_def)
  have os: "(outputs coins_gap)[2 := None] = [Some (fromOutput out51), None, None]"
    by (simp add: coins_gap_def numeral_2_eq_2)
  have cl: "cleanup_loop [Some (fromOutput out51), None, None] (Suc (Suc (Suc 0))) = Suc 0"
    by simp
  have c: "cleanup (coins_gap\<lparr>outputs := (outputs coins_gap)[2 := None]\<rparr>) =
             coins_gap\<lparr>outputs := [Some (fromOutput out51)]\<rparr>"
    unfolding cleanup_def by (simp add: os cl)
  from spend_frame[OF a] show ?thesis
  proof (elim exE conjE)
    fix e
    assume e1: "outputs coins_gap ! 2 = Some e"
      and e2: "snd (spend coins_gap 2) =
                 coins_gap\<lparr>outputs := (outputs coins_gap)[2 := Some (e\<lparr>spent := True\<rparr>)]\<rparr>"
      and e3: "length (outputs (snd (spend coins_gap 2))) = length (outputs coins_gap)"
      and e4: "\<forall>x. has coins_gap x \<longrightarrow>
              remove coins_gap x =
                (get coins_gap x, cleanup (coins_gap\<lparr>outputs := (outputs coins_gap)[x := None]\<rparr>)) \<and>
              version (snd (remove coins_gap x)) = version coins_gap \<and>
              height (snd (remove coins_gap x)) = height coins_gap \<and>
              coinbase (snd (remove coins_gap x)) = coinbase coins_gap \<and>
              hash (snd (remove coins_gap x)) = hash coins_gap \<and>
              get (snd (remove coins_gap x)) x = None \<and>
              (\<forall>k. k \<noteq> x \<longrightarrow> get (snd (remove coins_gap x)) k = get coins_gap k) \<and>
              length (outputs (snd (remove coins_gap x))) \<le> length (outputs coins_gap) \<and>
              outputs (snd (remove coins_gap x)) =
                take (length (outputs (snd (remove coins_gap x)))) ((outputs coins_gap)[x := None]) \<and>
              (\<forall>k. length (outputs (snd (remove coins_gap x))) \<le> k \<and>
                   k < length (outputs coins_gap) \<longrightarrow>
                   (outputs coins_gap)[x := None] ! k = None) \<and>
              no_trailing_gap (snd (remove coins_gap x))"
      and e5: "\<forall>x. \<not> has coins_gap x \<longrightarrow> remove coins_gap x = (None, coins_gap)"
    from e1 have e51: "e = fromOutput out51"
      by (simp add: coins_gap_def)
    have s1: "outputs (snd (spend coins_gap 2)) =
       [Some (fromOutput out51), None, Some (fromOutput out51\<lparr>spent := True\<rparr>)]"
      unfolding e2 e51 by (simp add: coins_gap_def numeral_2_eq_2)
    have s2: "length (outputs (snd (spend coins_gap 2))) = 3"
      unfolding e3 by (simp add: coins_gap_def)
    note r = e4[rule_format, OF h(1)]
    from r have ra: "remove coins_gap 2 =
          (get coins_gap 2, cleanup (coins_gap\<lparr>outputs := (outputs coins_gap)[2 := None]\<rparr>))"
      by (elim conjE)
    from r have rb: "\<forall>k. k \<noteq> 2 \<longrightarrow> get (snd (remove coins_gap 2)) k = get coins_gap k"
      by (elim conjE)
    from r have rc: "no_trailing_gap (snd (remove coins_gap 2))"
      by (elim conjE)
    have r1: "remove coins_gap 2 =
       (Some (fromOutput out51), coins_gap\<lparr>outputs := [Some (fromOutput out51)]\<rparr>)"
      unfolding ra g c by (rule refl)
    have r2: "length (outputs (snd (remove coins_gap 2))) = 1"
      unfolding r1 by simp
    have "(0::nat) \<noteq> 2"
      by simp
    then have r3: "get (snd (remove coins_gap 2)) 0 = get coins_gap 0"
      by (rule rb[rule_format])
    have r4: "remove coins_gap 1 = (None, coins_gap)"
      using e5[rule_format, OF h(2)] .
    show ?thesis
      by (intro conjI a h s1 s2 r1 r2 r3 rc r4)
  qed
qed

end
